theory Spec2Isabelle
  imports Main "HOL-Library.Word" "HOL-Library.AList"
begin

section \<open>Bytes, hashing and Python containers\<close>

text \<open>
  Python \<open>bytes\<close> are lists of 8-bit words. \<open>hashlib.sha256(m).digest()\<close> is a library
  function outside the repository: every operation that hashes takes it as the
  parameter \<open>H\<close>.
\<close>

type_synonym bytes = "8 word list"
type_synonym hashfn = "bytes \<Rightarrow> bytes"
type_synonym addr = nat

text \<open>\<open>bytes(n)\<close> for an int \<open>n\<close>: the string of \<open>n\<close> zero bytes.\<close>

definition py_bytes :: "int \<Rightarrow> bytes" where
  "py_bytes n = replicate (nat n) 0"

datatype error =
    FileBlockSplitChangedException
  | AssertionError
  | TypeError
  | AttributeError
  | KeyError
  | ValueError
  | IndexError

text \<open>
  \<open>list.insert(i, x)\<close>: a negative index counts from the end, and an index beyond
  either end is clamped to that end.
\<close>

definition py_list_insert :: "int \<Rightarrow> 'a \<Rightarrow> 'a list \<Rightarrow> 'a list" where
  "py_list_insert i x xs =
     (let n = int (length xs);
          j = (if i < 0 then max 0 (i + n) else min i n)
      in take (nat j) xs @ x # drop (nat j) xs)"

section \<open>block.py: class Block\<close>

text \<open>
  A \<open>Block\<close> object. \<open>previous_block_hash\<close> and \<open>block_hash\<close> are the class attributes
  initialised to \<open>None\<close> until the setter runs.
\<close>

record block =
  file_hash :: bytes
  index_all :: int
  chunk :: bytes
  index :: int
  content_hash :: bytes
  previous_block_hash :: "bytes option"
  block_hash :: "bytes option"

text \<open>The bytes both hashes start with: \<open>file_hash + bytes(index_all) + chunk + bytes(index)\<close>.\<close>

definition payload :: "block \<Rightarrow> bytes" where
  "payload b = file_hash b @ py_bytes (index_all b) @ chunk b @ py_bytes (index b)"

text \<open>The setter of \<open>previous_block_hash\<close>, which calls \<open>__set_block_hash\<close>.\<close>

definition set_previous_block_hash :: "hashfn \<Rightarrow> bytes \<Rightarrow> block \<Rightarrow> block" where
  "set_previous_block_hash H p b =
     b\<lparr>previous_block_hash := Some p, block_hash := Some (H (payload b @ p))\<rparr>"

text \<open>\<open>Block.__init__\<close>; the two \<open>assert\<close> statements are the \<open>AssertionError\<close> branches.\<close>

definition Block_init ::
  "hashfn \<Rightarrow> bytes \<Rightarrow> int \<Rightarrow> bytes \<Rightarrow> int \<Rightarrow> bytes option \<Rightarrow> error + block" where
  "Block_init H fh ia ch i prev =
     (if \<not> ia > 0 then Inl AssertionError
      else if \<not> (ia > i \<and> i \<ge> 0) then Inl AssertionError
      else
        let b0 = \<lparr>file_hash = fh, index_all = ia, chunk = ch, index = i,
                  content_hash = [], previous_block_hash = None, block_hash = None\<rparr>;
            b1 = (case prev of None \<Rightarrow> b0 | Some p \<Rightarrow> set_previous_block_hash H p b0)
        in Inr (b1\<lparr>content_hash := H (fh @ py_bytes ia @ ch @ py_bytes i)\<rparr>))"

section \<open>chain.py: class Blockchain\<close>

text \<open>
  The per-file record \<open>defaultdict(list)\<close>: its keys are content hashes and the string
  \<open>"index_all"\<close>, its values lists of block hashes and an int. Dictionaries are
  association lists in insertion order (\<open>AList.update\<close> keeps the place of a key that is
  already there and appends a new one, as a Python \<open>dict\<close> does).
\<close>

datatype fkey = IndexAllKey | ContentKey bytes
datatype fval = IntVal int | ListVal "bytes option list"

type_synonym file_blocks = "(fkey \<times> fval) list"
type_synonym files_dict = "(bytes \<times> file_blocks) list"

text \<open>
  Block objects are mutable and shared, so they live in a store: \<open>heap\<close> maps an address
  to the object's current fields, and the dictionaries and \<open>latest_block\<close> hold addresses.
  Address \<open>INITIAL_BLOCK\<close> is the class attribute \<open>Blockchain.INITIAL_BLOCK\<close>.
\<close>

record blockchain =
  heap :: "addr \<Rightarrow> block"
  chain_dict :: "(bytes option \<times> addr) list"
  files :: files_dict
  latest_block :: addr

definition INITIAL_BLOCK :: addr where
  "INITIAL_BLOCK = 0"

text \<open>The fields of \<open>Block(file_hash=b"", index_all=1, chunk=b"", index=0, previous_block_hash=bytes(0))\<close>.\<close>

definition initial_block :: "hashfn \<Rightarrow> block" where
  "initial_block H =
     \<lparr>file_hash = [], index_all = 1, chunk = [], index = 0,
      content_hash = H ([] @ py_bytes 1 @ [] @ py_bytes 0),
      previous_block_hash = Some (py_bytes 0),
      block_hash = Some (H (([] @ py_bytes 1 @ [] @ py_bytes 0) @ py_bytes 0))\<rparr>"

text \<open>The store when the class body has run: only \<open>INITIAL_BLOCK\<close> is allocated.\<close>

definition start_heap :: "hashfn \<Rightarrow> addr \<Rightarrow> block" where
  "start_heap H = (\<lambda>_. initial_block H)"

text \<open>\<open>d[k]\<close> on the inner \<open>defaultdict(list)\<close>: a missing key is created with \<open>[]\<close>.\<close>

definition file_blocks_getitem :: "file_blocks \<Rightarrow> fkey \<Rightarrow> fval \<times> file_blocks" where
  "file_blocks_getitem d k =
     (case map_of d k of
        Some v \<Rightarrow> (v, d)
      | None \<Rightarrow> (ListVal [], AList.update k (ListVal []) d))"

text \<open>\<open>self.__files[fh]\<close> on the outer \<open>defaultdict\<close>: a missing file gets an empty record.\<close>

definition files_getitem :: "files_dict \<Rightarrow> bytes \<Rightarrow> file_blocks \<times> files_dict" where
  "files_getitem fs fh =
     (case map_of fs fh of
        Some d \<Rightarrow> (d, fs)
      | None \<Rightarrow> ([], AList.update fh [] fs))"

text \<open>\<open>self.__files[fh][k] = v\<close>.\<close>

definition files_setitem :: "files_dict \<Rightarrow> bytes \<Rightarrow> fkey \<Rightarrow> fval \<Rightarrow> files_dict" where
  "files_setitem fs fh k v =
     (let (d, fs1) = files_getitem fs fh in AList.update fh (AList.update k v d) fs1)"

text \<open>
  \<open>self.__files[fh][ch].append(h)\<close>. Only a bucket that holds an int has no \<open>append\<close>;
  no key is created on that path.
\<close>

definition files_append :: "files_dict \<Rightarrow> bytes \<Rightarrow> bytes \<Rightarrow> bytes option \<Rightarrow> error + files_dict" where
  "files_append fs fh ch h =
     (let (d, fs1) = files_getitem fs fh;
          (v, d1) = file_blocks_getitem d (ContentKey ch)
      in case v of
           IntVal _ \<Rightarrow> Inl AttributeError
         | ListVal hs \<Rightarrow>
             Inr (AList.update fh (AList.update (ContentKey ch) (ListVal (hs @ [h])) d1) fs1))"

text \<open>
  \<open>self.__files[fh][ch].remove(h)\<close>: the keys the two \<open>defaultdict\<close>s create stay when
  \<open>remove\<close> raises \<open>ValueError\<close>.
\<close>

definition files_remove ::
  "files_dict \<Rightarrow> bytes \<Rightarrow> bytes \<Rightarrow> bytes option \<Rightarrow> (error + unit) \<times> files_dict" where
  "files_remove fs fh ch h =
     (let (d, fs1) = files_getitem fs fh;
          (v, d1) = file_blocks_getitem d (ContentKey ch);
          fs2 = AList.update fh d1 fs1
      in case v of
           IntVal _ \<Rightarrow> (Inl AttributeError, fs2)
         | ListVal hs \<Rightarrow>
             if h \<in> set hs
             then (Inr (), AList.update fh (AList.update (ContentKey ch) (ListVal (remove1 h hs)) d1) fs1)
             else (Inl ValueError, fs2))"

text \<open>
  \<open>Blockchain.__init__\<close>, run on the store \<open>hp\<close>. Without a seed the genesis block is
  entered and no \<open>"index_all"\<close> key is written; with a seed list its first element
  becomes \<open>latest_block\<close> and every block writes \<open>"index_all"\<close>.
\<close>

fun init_seed :: "(addr \<Rightarrow> block) \<Rightarrow> addr list \<Rightarrow> blockchain \<Rightarrow> error + blockchain" where
  "init_seed hp [] s = Inr s"
| "init_seed hp (a # as) s =
     (let b = hp a;
          s1 = s\<lparr>chain_dict := AList.update (block_hash b) a (chain_dict s)\<rparr>
      in case files_append (files s1) (file_hash b) (content_hash b) (block_hash b) of
           Inl e \<Rightarrow> Inl e
         | Inr fs \<Rightarrow>
             init_seed hp as
               (s1\<lparr>files := files_setitem fs (file_hash b) IndexAllKey (IntVal (index_all b))\<rparr>))"

definition Blockchain_init :: "(addr \<Rightarrow> block) \<Rightarrow> addr list option \<Rightarrow> error + blockchain" where
  "Blockchain_init hp seed =
     (case seed of
        None \<Rightarrow>
          (let g = hp INITIAL_BLOCK;
               s0 = \<lparr>heap = hp, chain_dict = [(block_hash g, INITIAL_BLOCK)], files = [],
                     latest_block = INITIAL_BLOCK\<rparr>
           in case files_append [] (file_hash g) (content_hash g) (block_hash g) of
                Inl e \<Rightarrow> Inl e
              | Inr fs \<Rightarrow> Inr (s0\<lparr>files := fs\<rparr>))
      | Some [] \<Rightarrow> Inl IndexError
      | Some (a # as) \<Rightarrow>
          init_seed hp (a # as)
            \<lparr>heap = hp, chain_dict = [], files = [], latest_block = a\<rparr>)"

text \<open>\<open>Blockchain()\<close> right after the class body has run: the fresh chain.\<close>

definition new_chain :: "hashfn \<Rightarrow> blockchain" where
  "new_chain H =
     \<lparr>heap = start_heap H,
      chain_dict = [(Some (H [0]), INITIAL_BLOCK)],
      files = [([], [(ContentKey (H [0]), ListVal [Some (H [0])])])],
      latest_block = INITIAL_BLOCK\<rparr>"

text \<open>
  The part of \<open>insert_block\<close> after the split check: link the block to the tip, enter it
  in both dictionaries, make it the tip. The setter asserts that the tip's hash is set.
\<close>

definition link_block :: "hashfn \<Rightarrow> addr \<Rightarrow> blockchain \<Rightarrow> (error + unit) \<times> blockchain" where
  "link_block H a s =
     (case block_hash (heap s (latest_block s)) of
        None \<Rightarrow> (Inl AssertionError, s)
      | Some p \<Rightarrow>
          let nb = set_previous_block_hash H p (heap s a);
              s1 = s\<lparr>heap := (heap s)(a := nb)\<rparr>;
              s2 = s1\<lparr>chain_dict := AList.update (block_hash nb) a (chain_dict s1)\<rparr>
          in (case files_append (files s2) (file_hash nb) (content_hash nb) (block_hash nb) of
                Inl e \<Rightarrow> (Inl e, s2)
              | Inr fs \<Rightarrow> (Inr (), s2\<lparr>files := fs, latest_block := a\<rparr>)))"

text \<open>
  \<open>insert_block\<close>. The walrus test is the truthiness of the file record (present and
  not empty). \<open>file_blocks["index_all"] + 1\<close> on a record without that key creates the
  key with \<open>[]\<close> and fails with \<open>TypeError\<close> (a list plus an int).
\<close>

definition insert_block :: "hashfn \<Rightarrow> addr \<Rightarrow> blockchain \<Rightarrow> (error + unit) \<times> blockchain" where
  "insert_block H a s =
     (let nb = heap s a in
      case (case map_of (files s) (file_hash nb) of
              None \<Rightarrow> None
            | Some fb \<Rightarrow> if fb = [] then None else Some fb) of
        Some fb \<Rightarrow>
          if map_of fb (ContentKey (content_hash nb)) = None
          then (case file_blocks_getitem fb IndexAllKey of
                  (IntVal n, _) \<Rightarrow>
                    if n + 1 = int (length fb)
                    then (Inl FileBlockSplitChangedException, s)
                    else link_block H a s
                | (ListVal _, fb1) \<Rightarrow>
                    (Inl TypeError, s\<lparr>files := AList.update (file_hash nb) fb1 (files s)\<rparr>))
          else link_block H a s
      | None \<Rightarrow>
          link_block H a
            (s\<lparr>files := files_setitem (files s) (file_hash nb) IndexAllKey (IntVal (index_all nb))\<rparr>))"

text \<open>\<open>contains_file\<close>; the same \<open>file_blocks["index_all"] + 1\<close> as in \<open>insert_block\<close>.\<close>

definition contains_file :: "bytes \<Rightarrow> blockchain \<Rightarrow> (error + bool) \<times> blockchain" where
  "contains_file fh s =
     (case map_of (files s) fh of
        None \<Rightarrow> (Inr False, s)
      | Some fb \<Rightarrow>
          (case file_blocks_getitem fb IndexAllKey of
             (IntVal n, _) \<Rightarrow> (Inr (int (length fb) = n + 1), s)
           | (ListVal _, fb1) \<Rightarrow> (Inl TypeError, s\<lparr>files := AList.update fh fb1 (files s)\<rparr>)))"

text \<open>
  \<open>get_file_blocks\<close>: the loop over \<open>file_blocks.values()\<close> in insertion order. The int
  under \<open>"index_all"\<close> is skipped; \<open>content_block_hashes[0]\<close> raises \<open>IndexError\<close> on an
  empty list and \<open>self.__chain[...]\<close> raises \<open>KeyError\<close> on a missing hash.
\<close>

fun get_file_blocks_loop :: "blockchain \<Rightarrow> fval list \<Rightarrow> addr list \<Rightarrow> error + addr list" where
  "get_file_blocks_loop s [] blocks = Inr blocks"
| "get_file_blocks_loop s (IntVal n # vs) blocks = get_file_blocks_loop s vs blocks"
| "get_file_blocks_loop s (ListVal [] # vs) blocks = Inl IndexError"
| "get_file_blocks_loop s (ListVal (h # hs) # vs) blocks =
     (case map_of (chain_dict s) h of
        None \<Rightarrow> Inl KeyError
      | Some a \<Rightarrow> get_file_blocks_loop s vs (py_list_insert (index (heap s a)) a blocks))"

definition get_file_blocks :: "bytes \<Rightarrow> blockchain \<Rightarrow> error + addr list" where
  "get_file_blocks fh s =
     get_file_blocks_loop s
       (map snd (case map_of (files s) fh of None \<Rightarrow> [] | Some fb \<Rightarrow> fb)) []"

text \<open>
  \<open>verify_integrity\<close>. \<open>count_block\<close> is the body of the loop on \<open>file_block_numbers\<close>
  for the block just reached; \<open>count_tip\<close> is the statement before the loop. The walk
  follows \<open>previous_block_hash\<close> through \<open>self.__chain\<close> and has no bound of its own, so
  it is a partial function: \<open>None\<close> is a walk that never returns.
\<close>

type_synonym file_block_numbers = "(bytes \<times> int) list"

definition count_block :: "block \<Rightarrow> file_block_numbers \<Rightarrow> file_block_numbers" where
  "count_block b fbn =
     (if index_all b - 1 > 0 then
        (case map_of fbn (file_hash b) of
           Some c \<Rightarrow>
             if c - 1 = 0 then AList.delete (file_hash b) fbn
             else AList.update (file_hash b) (c - 1) fbn
         | None \<Rightarrow> AList.update (file_hash b) (index_all b - 1) fbn)
      else fbn)"

definition count_tip :: "block \<Rightarrow> file_block_numbers" where
  "count_tip b = (if index_all b - 1 > 0 then [(file_hash b, index_all b - 1)] else [])"

partial_function (option) verify_walk ::
  "blockchain \<Rightarrow> addr \<Rightarrow> file_block_numbers \<Rightarrow> bool option" where
  "verify_walk s curr_block fbn =
     (if previous_block_hash (heap s curr_block) \<noteq> Some (py_bytes 0) then
        (case map_of (chain_dict s) (previous_block_hash (heap s curr_block)) of
           None \<Rightarrow> Some False
         | Some a \<Rightarrow> verify_walk s a (count_block (heap s a) fbn))
      else if block_hash (heap s curr_block) \<noteq> block_hash (heap s INITIAL_BLOCK) then Some False
      else Some (length fbn = 0))"

declare verify_walk.simps [code]

definition verify_integrity :: "blockchain \<Rightarrow> bool option" where
  "verify_integrity s = verify_walk s (latest_block s) (count_tip (heap s (latest_block s)))"

text \<open>
  The property \<open>chain\<close>: the tip first, then each predecessor appended; nothing is
  reversed. \<open>self.__chain[...]\<close> raises \<open>KeyError\<close> on a missing hash.
\<close>

partial_function (option) chain_walk ::
  "blockchain \<Rightarrow> addr \<Rightarrow> addr list \<Rightarrow> (error + addr list) option" where
  "chain_walk s block blocks =
     (if previous_block_hash (heap s block) \<noteq> Some (py_bytes 0) then
        (case map_of (chain_dict s) (previous_block_hash (heap s block)) of
           None \<Rightarrow> Some (Inl KeyError)
         | Some a \<Rightarrow> chain_walk s a (blocks @ [a]))
      else Some (Inr blocks))"

declare chain_walk.simps [code]

definition chain_list :: "blockchain \<Rightarrow> (error + addr list) option" where
  "chain_list s = chain_walk s (latest_block s) [latest_block s]"

text \<open>
  \<open>merge_blocks\<close>, first loop: \<open>for block in reversed(new_blocks)\<close>. The loop state is
  the chain, \<open>added_blocks\<close> and \<open>starting_conflicted_block\<close>.
\<close>

fun merge_scan ::
  "addr list \<Rightarrow> blockchain \<Rightarrow> addr list \<Rightarrow> addr option
     \<Rightarrow> (error + addr list \<times> addr option) \<times> blockchain" where
  "merge_scan [] s added start = (Inr (added, start), s)"
| "merge_scan (a # as) s added start =
     (let b = heap s a in
      if map_of (chain_dict s) (block_hash b) = None then
        (let s1 = s\<lparr>chain_dict := AList.update (block_hash b) a (chain_dict s)\<rparr> in
         case files_append (files s1) (file_hash b) (content_hash b) (block_hash b) of
           Inl e \<Rightarrow> (Inl e, s1)
         | Inr fs \<Rightarrow>
             let s2 = s1\<lparr>files := files_setitem fs (file_hash b) IndexAllKey (IntVal (index_all b))\<rparr>
             in merge_scan as s2 (added @ [a])
                  (case map_of (chain_dict s2) (previous_block_hash b) of
                     None \<Rightarrow> start
                   | Some c \<Rightarrow> Some c))
      else merge_scan as s added start)"

text \<open>
  Second loop: \<open>while cur_block.block_hash != starting_conflicted_block.block_hash\<close>.
  Every round deletes a key of \<open>self.__chain\<close> or raises, which bounds the loop.
\<close>

function merge_unwind ::
  "blockchain \<Rightarrow> addr \<Rightarrow> addr \<Rightarrow> addr list \<Rightarrow> (error + addr list) \<times> blockchain" where
  "merge_unwind s cur start conflicted =
     (if block_hash (heap s cur) \<noteq> block_hash (heap s start) then
        (if map_of (chain_dict s) (block_hash (heap s cur)) = None then (Inl KeyError, s)
         else
           (let s1 = s\<lparr>chain_dict := AList.delete (block_hash (heap s cur)) (chain_dict s)\<rparr> in
            case files_remove (files s1) (file_hash (heap s cur)) (content_hash (heap s cur))
                   (block_hash (heap s cur)) of
              (Inl e, fs) \<Rightarrow> (Inl e, s1\<lparr>files := fs\<rparr>)
            | (Inr _, fs) \<Rightarrow>
                (case map_of (chain_dict s1) (previous_block_hash (heap s cur)) of
                   None \<Rightarrow> (Inl KeyError, s1\<lparr>files := fs\<rparr>)
                 | Some c \<Rightarrow> merge_unwind (s1\<lparr>files := fs\<rparr>) c start (conflicted @ [cur]))))
      else (Inr conflicted, s))"
  by pat_completeness auto

termination merge_unwind
proof (relation "measure (\<lambda>(s, cur, start, conflicted). length (chain_dict s))")
  show "wf (measure (\<lambda>(s, cur, start, conflicted). length (chain_dict s)))"
    by simp
next
  fix s :: blockchain and cur start :: addr and conflicted :: "addr list"
    and s1 x fs r c
  assume present: "map_of (chain_dict s) (block_hash (heap s cur)) \<noteq> None"
    and s1: "s1 = s\<lparr>chain_dict := AList.delete (block_hash (heap s cur)) (chain_dict s)\<rparr>"
  have shrink: "map_of al k \<noteq> None \<Longrightarrow> length (AList.delete k al) < length al"
    for k :: "bytes option" and al :: "(bytes option \<times> addr) list"
  proof (induction al)
    case Nil
    then show ?case by simp
  next
    case (Cons p al)
    have le: "length (AList.delete k al) \<le> length al"
      by (rule length_delete_le)
    show ?case
    proof (cases "fst p = k")
      case True
      with le show ?thesis by (simp add: less_Suc_eq_le)
    next
      case False
      with Cons.prems have "map_of al k \<noteq> None"
        by (cases p) (simp split: if_splits)
      then have "length (AList.delete k al) < length al"
        by (rule Cons.IH)
      with False show ?thesis by simp
    qed
  qed
  from present have "length (AList.delete (block_hash (heap s cur)) (chain_dict s))
      < length (chain_dict s)"
    by (rule shrink)
  with s1 show "((s1\<lparr>files := fs\<rparr>, c, start, conflicted @ [cur]), (s, cur, start, conflicted))
      \<in> measure (\<lambda>(s, cur, start, conflicted). length (chain_dict s))"
    by simp
qed

declare merge_unwind.simps [simp del]

text \<open>Third loop: the conflicted blocks go through \<open>insert_block\<close> and join \<open>added_blocks\<close>.\<close>

fun merge_reinsert ::
  "hashfn \<Rightarrow> addr list \<Rightarrow> blockchain \<Rightarrow> addr list \<Rightarrow> (error + addr list) \<times> blockchain" where
  "merge_reinsert H [] s added = (Inr added, s)"
| "merge_reinsert H (a # as) s added =
     (case insert_block H a s of
        (Inl e, s1) \<Rightarrow> (Inl e, s1)
      | (Inr _, s1) \<Rightarrow> merge_reinsert H as s1 (added @ [a]))"

text \<open>
  \<open>merge_blocks\<close>. \<open>starting_conflicted_block.block_hash\<close> on \<open>None\<close> is the
  \<open>AttributeError\<close>; \<open>added_blocks[-1]\<close> on an empty list is the \<open>IndexError\<close>.
\<close>

definition merge_blocks ::
  "hashfn \<Rightarrow> addr list \<Rightarrow> blockchain \<Rightarrow> (error + addr list) \<times> blockchain" where
  "merge_blocks H new_blocks s =
     (case merge_scan (rev new_blocks) s [] None of
        (Inl e, s1) \<Rightarrow> (Inl e, s1)
      | (Inr (added_rev, start), s1) \<Rightarrow>
          (let added = rev added_rev in
           case start of
             None \<Rightarrow> (Inl AttributeError, s1)
           | Some st \<Rightarrow>
               if block_hash (heap s1 st) = block_hash (heap s1 (latest_block s1)) then
                 (Inr added, if added \<noteq> [] then s1\<lparr>latest_block := last added\<rparr> else s1)
               else if added = [] then (Inl IndexError, s1)
               else
                 (case merge_unwind (s1\<lparr>latest_block := last added\<rparr>) (latest_block s1) st [] of
                    (Inl e, s2) \<Rightarrow> (Inl e, s2)
                  | (Inr conflicted, s2) \<Rightarrow> merge_reinsert H (rev conflicted) s2 added)))"

text \<open>The server's \<open>for block in blocks: self.__blockchain.insert_block(block)\<close>.\<close>

fun insert_blocks :: "hashfn \<Rightarrow> addr list \<Rightarrow> blockchain \<Rightarrow> (error + unit) \<times> blockchain" where
  "insert_blocks H [] s = (Inr (), s)"
| "insert_blocks H (a # as) s =
     (case insert_block H a s of
        (Inl e, s1) \<Rightarrow> (Inl e, s1)
      | (Inr _, s1) \<Rightarrow> insert_blocks H as s1)"

text \<open>
  A new \<open>Block(fh, ia, ch, i)\<close> object placed at address \<open>a\<close> of the store (an
  address no dictionary refers to yet).
\<close>

definition new_block :: "hashfn \<Rightarrow> bytes \<Rightarrow> int \<Rightarrow> bytes \<Rightarrow> int \<Rightarrow> block" where
  "new_block H fh ia ch i =
     \<lparr>file_hash = fh, index_all = ia, chunk = ch, index = i,
      content_hash = H (fh @ py_bytes ia @ ch @ py_bytes i),
      previous_block_hash = None, block_hash = None\<rparr>"

definition alloc :: "addr \<Rightarrow> block \<Rightarrow> blockchain \<Rightarrow> blockchain" where
  "alloc a b s = s\<lparr>heap := (heap s)(a := b)\<rparr>"

text \<open>
  A collision-free stand-in for \<open>sha256\<close>, used where an operation is evaluated on
  concrete blocks: the digest is the message itself. Every message hashed by a block is
  non-empty (it contains \<open>bytes(index_all)\<close> with \<open>index_all > 0\<close>), so no digest is the
  empty string, as with the 32-byte digests of \<open>sha256\<close>.
\<close>

definition ideal_hash :: hashfn where
  "ideal_hash m = m"

fun alloc_all :: "addr \<Rightarrow> block list \<Rightarrow> blockchain \<Rightarrow> blockchain" where
  "alloc_all a [] s = s"
| "alloc_all a (b # bs) s = alloc_all (Suc a) bs (alloc a b s)"

section \<open>Notions of the specification\<close>


definition recorded_index_all :: "file_blocks \<Rightarrow> int option" where
  "recorded_index_all fb =
     (case map_of fb IndexAllKey of Some (IntVal n) \<Rightarrow> Some n | _ \<Rightarrow> None)"

definition proper_dicts :: "blockchain \<Rightarrow> bool" where
  "proper_dicts s \<longleftrightarrow>
     distinct (map fst (chain_dict s)) \<and> distinct (map fst (files s))
     \<and> list_all (\<lambda>(fh, fb). distinct (map fst fb)) (files s)"

text \<open>The part of \<open>proper_dicts\<close> that concerns \<open>self.__files\<close>.\<close>

definition proper_files :: "files_dict \<Rightarrow> bool" where
  "proper_files fs \<longleftrightarrow>
     distinct (map fst fs) \<and> list_all (\<lambda>(fh, fb). distinct (map fst fb)) fs"

section \<open>Linked chains\<close>

text \<open>
  \<open>linked s p\<close>: the addresses \<open>p\<close> run from a block back to \<open>INITIAL_BLOCK\<close>, each
  block's \<open>previous_block_hash\<close> is the hash of the next one, every block is found in
  \<open>self.__chain\<close> under its own hash, and only the genesis block has the empty
  predecessor hash. \<open>no_collision s as\<close>: the block objects \<open>as\<close> carry pairwise
  different block hashes, none of them the empty string.
\<close>

fun linked :: "blockchain \<Rightarrow> addr list \<Rightarrow> bool" where
  "linked s [] = False"
| "linked s [a] =
     (a = INITIAL_BLOCK \<and> previous_block_hash (heap s a) = Some []
      \<and> map_of (chain_dict s) (block_hash (heap s a)) = Some a)"
| "linked s (a # b # p) =
     (previous_block_hash (heap s a) = block_hash (heap s b)
      \<and> block_hash (heap s b) \<noteq> Some []
      \<and> map_of (chain_dict s) (block_hash (heap s a)) = Some a
      \<and> linked s (b # p))"

definition no_collision :: "blockchain \<Rightarrow> addr list \<Rightarrow> bool" where
  "no_collision s as \<longleftrightarrow>
     distinct (map (\<lambda>a. block_hash (heap s a)) as)
     \<and> list_all (\<lambda>a. block_hash (heap s a) \<noteq> Some []) as"

section \<open>Example chains\<close>

text \<open>
  The chain of the repository's test \<open>test_invalid_file_block_splitting\<close>: three blocks
  of file \<open>b"F"\<close> with \<open>index_all = 3\<close>, all of index 0 and with different chunks, are
  inserted; a fourth block object of that file waits at address 4.
\<close>

definition split_example :: blockchain where
  "split_example =
     snd (insert_blocks ideal_hash [1, 2, 3]
       (alloc_all 1
          [new_block ideal_hash [0x46] 3 [0x61] 0,
           new_block ideal_hash [0x46] 3 [0x62] 0,
           new_block ideal_hash [0x46] 3 [0x63] 0,
           new_block ideal_hash [0x46] 3 [0x61] 1]
          (new_chain ideal_hash)))"

text \<open>
  The chains of the repository's test \<open>test_merge_blocks_conflict_1\<close>: the single-chunk
  files \<open>b"B"\<close> and \<open>b"C"\<close> are inserted into a fresh chain; the blocks \<open>D\<close> and \<open>E\<close> of
  a peer, linked to \<open>B\<close> and to \<open>D\<close>, wait at addresses 3 and 4.
\<close>

definition merge_example :: blockchain where
  "merge_example =
     snd (insert_blocks ideal_hash [1, 2]
       (alloc_all 1
          [new_block ideal_hash [0x42] 1 [0x42] 0,
           new_block ideal_hash [0x43] 1 [0x43] 0,
           set_previous_block_hash ideal_hash [0x42, 0, 0x42, 0] (new_block ideal_hash [0x44] 1 [0x44] 0),
           set_previous_block_hash ideal_hash [0x44, 0, 0x44, 0x42, 0, 0x42, 0] (new_block ideal_hash [0x45] 1 [0x45] 0)]
          (new_chain ideal_hash)))"

text \<open>
  A fork over one file: \<open>B\<close> and \<open>C\<close> are the two chunks of file \<open>b"F"\<close>, inserted
  locally. The peer also holds \<open>B\<close>, then the single-chunk file \<open>b"K"\<close> as \<open>D\<close>, then
  the second chunk of \<open>b"F"\<close> as \<open>E\<close>; \<open>D\<close> and \<open>E\<close> wait at addresses 3 and 4.
\<close>

definition fork_example :: blockchain where
  "fork_example =
     snd (insert_blocks ideal_hash [1, 2]
       (alloc_all 1
          [new_block ideal_hash [0x46] 2 [0x61] 0,
           new_block ideal_hash [0x46] 2 [0x62] 1,
           set_previous_block_hash ideal_hash [0x46, 0, 0, 0x61, 0] (new_block ideal_hash [0x4b] 1 [0x6b] 0),
           set_previous_block_hash ideal_hash [0x4b, 0, 0x6b, 0x46, 0, 0, 0x61, 0] (new_block ideal_hash [0x46] 2 [0x62] 1)]
          (new_chain ideal_hash)))"

text \<open>
  The peer's chain of the fork over one file: \<open>B\<close>, \<open>D\<close>, \<open>E\<close> inserted into a fresh
  chain.
\<close>

definition peer_example :: blockchain where
  "peer_example =
     snd (insert_blocks ideal_hash [1, 2, 3]
       (alloc_all 1
          [new_block ideal_hash [0x46] 2 [0x61] 0,
           new_block ideal_hash [0x4b] 1 [0x6b] 0,
           new_block ideal_hash [0x46] 2 [0x62] 1]
          (new_chain ideal_hash)))"



text \<open>
  The three chunks of file \<open>b"F"\<close>, inserted in the order of index 2, 1, 0.
\<close>

definition reversed_example :: blockchain where
  "reversed_example =
     snd (insert_blocks ideal_hash [1, 2, 3]
       (alloc_all 1
          [new_block ideal_hash [0x46] 3 [0x63] 2,
           new_block ideal_hash [0x46] 3 [0x62] 1,
           new_block ideal_hash [0x46] 3 [0x61] 0]
          (new_chain ideal_hash)))"

text \<open>
  File \<open>b"F"\<close> announced in three chunks by its first block and in two chunks by
  its second.
\<close>

definition resplit_example :: blockchain where
  "resplit_example =
     snd (insert_blocks ideal_hash [1, 2]
       (alloc_all 1
          [new_block ideal_hash [0x46] 3 [0x58] 0,
           new_block ideal_hash [0x46] 2 [0x59] 0]
          (new_chain ideal_hash)))"

text \<open>
  The single-chunk file \<open>Block(b"F", 1, b"hi", 0)\<close>, one block object at address 1,
  inserted once.
\<close>

definition once_example :: blockchain where
  "once_example =
     snd (insert_blocks ideal_hash [1]
       (alloc_all 1
          [new_block ideal_hash [0x46] 1 [0x68, 0x69] 0]
          (new_chain ideal_hash)))"



text \<open>The same block object inserted a second time.\<close>

definition twice_example :: blockchain where
  "twice_example = snd (insert_block ideal_hash 1 once_example)"

section \<open>Whole files\<close>

text \<open>
  What the countdown of \<open>verify_integrity\<close> amounts to. \<open>file_chunks fh bs\<close> are the
  blocks of \<open>bs\<close> that belong to file \<open>fh\<close> and to a split into more than one chunk
  (the only blocks the countdown looks at); \<open>same_split bs\<close>: such blocks of one file
  agree on \<open>index_all\<close>; \<open>whole_files bs\<close>: the number of such blocks of each file is a
  multiple of the file's \<open>index_all\<close>.
\<close>

definition file_chunks :: "bytes \<Rightarrow> block list \<Rightarrow> block list" where
  "file_chunks fh bs = filter (\<lambda>b. file_hash b = fh \<and> 1 < index_all b) bs"

definition same_split :: "block list \<Rightarrow> bool" where
  "same_split bs \<longleftrightarrow>
     list_all (\<lambda>b. list_all (\<lambda>c. file_hash c = file_hash b \<and> 1 < index_all b \<and> 1 < index_all c
                                  \<longrightarrow> index_all c = index_all b) bs) bs"

definition whole_files :: "block list \<Rightarrow> bool" where
  "whole_files bs \<longleftrightarrow>
     list_all (\<lambda>b. 1 < index_all b
                    \<longrightarrow> index_all b dvd int (length (file_chunks (file_hash b) bs))) bs"

section \<open>Re-inserting the tip\<close>

text \<open>
  \<open>hash_unused h s\<close>: the hash \<open>h\<close> is no key of \<open>self.__chain\<close> and stands in no bucket
  of \<open>self.__files\<close>.
\<close>

definition hash_unused :: "bytes option \<Rightarrow> blockchain \<Rightarrow> bool" where
  "hash_unused h s \<longleftrightarrow>
     map_of (chain_dict s) h = None
     \<and> list_all (\<lambda>(fh, d). list_all (\<lambda>(k, v). case v of IntVal _ \<Rightarrow> True
                                                        | ListVal hs \<Rightarrow> h \<notin> set hs) d) (files s)"

text \<open>Two value lists that differ by hashes appended to non-empty buckets.\<close>

definition grown :: "fval \<Rightarrow> fval \<Rightarrow> bool" where
  "grown v v' \<longleftrightarrow> v = v' \<or> (\<exists>hs x. hs \<noteq> [] \<and> v = ListVal hs \<and> v' = ListVal (hs @ [x]))"

section \<open>Buckets of the file dictionary\<close>

text \<open>
  \<open>bucket fs fh ch\<close> is the value \<open>self.__files[fh][ch]\<close> if both keys exist,
  \<open>bucket_list\<close> the list it holds, and \<open>buckets_ok fs\<close> says that every value under a
  content hash is a list (the int stands under \<open>"index_all"\<close> only).
\<close>

definition bucket :: "files_dict \<Rightarrow> bytes \<Rightarrow> bytes \<Rightarrow> fval option" where
  "bucket fs fh ch = (case map_of fs fh of None \<Rightarrow> None | Some d \<Rightarrow> map_of d (ContentKey ch))"

definition buckets_ok :: "files_dict \<Rightarrow> bool" where
  "buckets_ok fs \<longleftrightarrow> (\<forall>fh ch v. bucket fs fh ch = Some v \<longrightarrow> (\<exists>hs. v = ListVal hs))"

definition bucket_list :: "files_dict \<Rightarrow> bytes \<Rightarrow> bytes \<Rightarrow> bytes option list" where
  "bucket_list fs fh ch = (case bucket fs fh ch of Some (ListVal hs) \<Rightarrow> hs | _ \<Rightarrow> [])"

section \<open>Chains built by insert_block and merge_blocks\<close>

text \<open>
  \<open>registered s a\<close>: the hash of block \<open>a\<close> stands in the bucket
  \<open>self.__files[a.file_hash][a.content_hash]\<close>. \<open>kept s p\<close>: the chain is the linked
  path \<open>p\<close> from the tip back to the genesis block, its block objects and hashes are
  pairwise different, \<open>self.__chain\<close> holds exactly these blocks, each under its own
  hash, and each is registered in \<open>self.__files\<close>.
\<close>

definition registered :: "blockchain \<Rightarrow> addr \<Rightarrow> bool" where
  "registered s a \<longleftrightarrow>
     block_hash (heap s a)
       \<in> set (bucket_list (files s) (file_hash (heap s a)) (content_hash (heap s a)))"

definition kept :: "blockchain \<Rightarrow> addr list \<Rightarrow> bool" where
  "kept s p \<longleftrightarrow>
     linked s p \<and> latest_block s = hd p \<and> distinct p \<and> no_collision s p
     \<and> list_all (\<lambda>(k, a). a \<in> set p \<and> k = block_hash (heap s a)) (chain_dict s)
     \<and> buckets_ok (files s) \<and> list_all (registered s) p"

text \<open>
  \<open>follows s as f\<close>: in the list \<open>as\<close> (newest block first) every block's
  \<open>previous_block_hash\<close> is the hash of the next one, and the last one's is the hash of
  \<open>f\<close>.
\<close>

fun follows :: "blockchain \<Rightarrow> addr list \<Rightarrow> addr \<Rightarrow> bool" where
  "follows s [] f = True"
| "follows s (a # as) f =
     (previous_block_hash (heap s a) = block_hash (heap s (hd (as @ [f]))) \<and> follows s as f)"

text \<open>
  \<open>built H s p\<close>: the chain \<open>s\<close>, with the blocks \<open>p\<close> from the tip back to the genesis
  block, came about from a fresh \<open>Blockchain()\<close> by

    \<^item> \<open>insert_block\<close> calls that returned, each on a block object not yet in the chain;

    \<^item> \<open>merge_blocks\<close> calls on a non-empty list \<open>new\<close> (oldest first) of block objects
      not yet in the chain, the first linked to a block \<open>f\<close> of the chain and each other
      one to the one before it, the last one carrying a block hash;

    \<^item> changes of the store away from the chain (block objects are created).

  Throughout, the blocks involved carry pairwise different block hashes, none of them
  the empty string: before a merge the new blocks and the chain, after an operation the
  resulting chain.
\<close>

inductive built :: "hashfn \<Rightarrow> blockchain \<Rightarrow> addr list \<Rightarrow> bool" for H :: hashfn where
  fresh:
    "hp INITIAL_BLOCK = initial_block H \<Longrightarrow> Blockchain_init hp None = Inr s
     \<Longrightarrow> no_collision s [INITIAL_BLOCK]
     \<Longrightarrow> built H s [INITIAL_BLOCK]"
| inserted:
    "built H s p \<Longrightarrow> a \<notin> set p \<Longrightarrow> insert_block H a s = (Inr u, s')
     \<Longrightarrow> no_collision s' (a # p)
     \<Longrightarrow> built H s' (a # p)"
| merged:
    "built H s (t @ f # r) \<Longrightarrow> new \<noteq> [] \<Longrightarrow> distinct new
     \<Longrightarrow> set new \<inter> set (t @ f # r) = {}
     \<Longrightarrow> follows s (rev new) f \<Longrightarrow> block_hash (heap s (last new)) \<noteq> None
     \<Longrightarrow> no_collision s (rev new @ t @ f # r)
     \<Longrightarrow> merge_blocks H new s = (res, s')
     \<Longrightarrow> no_collision s' (t @ rev new @ f # r)
     \<Longrightarrow> built H s' (t @ rev new @ f # r)"
| stored:
    "built H s p \<Longrightarrow> list_all (\<lambda>a. hp a = heap s a) p
     \<Longrightarrow> built H (s\<lparr>heap := hp\<rparr>) p"

section \<open>Evaluation\<close>

lemma py_bytes_pos: "0 < n \<Longrightarrow> py_bytes n = 0 # py_bytes (n - 1)"
proof -
  assume "0 < n"
  then have "nat n = Suc (nat (n - 1))"
    by arith
  then show ?thesis
    by (simp add: py_bytes_def)
qed

lemma py_bytes_simps:
  "py_bytes 0 = []" "py_bytes 1 = [0]" "py_bytes (numeral k) = 0 # py_bytes (numeral k - 1)"
  by (simp_all add: py_bytes_pos) (simp_all add: py_bytes_def)

lemmas chain_eval =
  insert_block_def link_block_def files_append_def files_getitem_def file_blocks_getitem_def
  files_setitem_def files_remove_def new_chain_def start_heap_def initial_block_def new_block_def
  alloc_def ideal_hash_def py_bytes_simps set_previous_block_hash_def payload_def INITIAL_BLOCK_def
  Let_def

lemma Blockchain_init_new_chain:
  "Blockchain_init (start_heap H) None = Inr (new_chain H)"
  by (simp add: Blockchain_init_def new_chain_def start_heap_def initial_block_def
      files_append_def files_getitem_def file_blocks_getitem_def py_bytes_def)

section \<open>The example chains, evaluated\<close>

lemma split_example_run:
  "insert_blocks ideal_hash [1, 2, 3]
     (alloc_all 1
          [new_block ideal_hash [0x46] 3 [0x61] 0,
           new_block ideal_hash [0x46] 3 [0x62] 0,
           new_block ideal_hash [0x46] 3 [0x63] 0,
           new_block ideal_hash [0x46] 3 [0x61] 1]
          (new_chain ideal_hash))
   = (Inr (),
      \<lparr>heap =
           (start_heap ideal_hash)
             (1 := set_previous_block_hash ideal_hash [0] (new_block ideal_hash [0x46] 3 [0x61] 0),
              2 := set_previous_block_hash ideal_hash [0x46, 0, 0, 0, 0x61, 0] (new_block ideal_hash [0x46] 3 [0x62] 0),
              3 := set_previous_block_hash ideal_hash [0x46, 0, 0, 0, 0x62, 0x46, 0, 0, 0, 0x61, 0] (new_block ideal_hash [0x46] 3 [0x63] 0),
              4 := new_block ideal_hash [0x46] 3 [0x61] 1),
         chain_dict =
           [(Some [0], 0),
            (Some [0x46, 0, 0, 0, 0x61, 0], 1),
            (Some [0x46, 0, 0, 0, 0x62, 0x46, 0, 0, 0, 0x61, 0], 2),
            (Some [0x46, 0, 0, 0, 0x63, 0x46, 0, 0, 0, 0x62, 0x46, 0, 0, 0, 0x61, 0], 3)],
         files =
           [([],
             [(ContentKey [0], ListVal [Some [0]])]),
            ([0x46],
             [(IndexAllKey, IntVal 3),
              (ContentKey [0x46, 0, 0, 0, 0x61], ListVal [Some [0x46, 0, 0, 0, 0x61, 0]]),
              (ContentKey [0x46, 0, 0, 0, 0x62], ListVal [Some [0x46, 0, 0, 0, 0x62, 0x46, 0, 0, 0, 0x61, 0]]),
              (ContentKey [0x46, 0, 0, 0, 0x63], ListVal [Some [0x46, 0, 0, 0, 0x63, 0x46, 0, 0, 0, 0x62, 0x46, 0, 0, 0, 0x61, 0]])])],
         latest_block = 3\<rparr>)"
  by (simp add: chain_eval fun_eq_iff)

lemma split_example_state:
  "split_example =
     \<lparr>heap =
        (start_heap ideal_hash)
          (1 := set_previous_block_hash ideal_hash [0] (new_block ideal_hash [0x46] 3 [0x61] 0),
           2 := set_previous_block_hash ideal_hash [0x46, 0, 0, 0, 0x61, 0] (new_block ideal_hash [0x46] 3 [0x62] 0),
           3 := set_previous_block_hash ideal_hash [0x46, 0, 0, 0, 0x62, 0x46, 0, 0, 0, 0x61, 0] (new_block ideal_hash [0x46] 3 [0x63] 0),
           4 := new_block ideal_hash [0x46] 3 [0x61] 1),
      chain_dict =
        [(Some [0], 0),
         (Some [0x46, 0, 0, 0, 0x61, 0], 1),
         (Some [0x46, 0, 0, 0, 0x62, 0x46, 0, 0, 0, 0x61, 0], 2),
         (Some [0x46, 0, 0, 0, 0x63, 0x46, 0, 0, 0, 0x62, 0x46, 0, 0, 0, 0x61, 0], 3)],
      files =
        [([],
          [(ContentKey [0], ListVal [Some [0]])]),
         ([0x46],
          [(IndexAllKey, IntVal 3),
           (ContentKey [0x46, 0, 0, 0, 0x61], ListVal [Some [0x46, 0, 0, 0, 0x61, 0]]),
           (ContentKey [0x46, 0, 0, 0, 0x62], ListVal [Some [0x46, 0, 0, 0, 0x62, 0x46, 0, 0, 0, 0x61, 0]]),
           (ContentKey [0x46, 0, 0, 0, 0x63], ListVal [Some [0x46, 0, 0, 0, 0x63, 0x46, 0, 0, 0, 0x62, 0x46, 0, 0, 0, 0x61, 0]])])],
      latest_block = 3\<rparr>"
  by (simp only: split_example_def split_example_run snd_conv)

lemma split_example_inserted:
  "insert_blocks ideal_hash [1, 2, 3]
     (alloc_all 1
          [new_block ideal_hash [0x46] 3 [0x61] 0,
           new_block ideal_hash [0x46] 3 [0x62] 0,
           new_block ideal_hash [0x46] 3 [0x63] 0,
           new_block ideal_hash [0x46] 3 [0x61] 1]
          (new_chain ideal_hash))
   = (Inr (), split_example)"
  by (simp only: split_example_state split_example_run)

lemma split_example_start:
  "heap (alloc_all 1
          [new_block ideal_hash [0x46] 3 [0x61] 0,
           new_block ideal_hash [0x46] 3 [0x62] 0,
           new_block ideal_hash [0x46] 3 [0x63] 0,
           new_block ideal_hash [0x46] 3 [0x61] 1]
          (new_chain ideal_hash)) INITIAL_BLOCK = initial_block ideal_hash"
  "Blockchain_init (heap (alloc_all 1
          [new_block ideal_hash [0x46] 3 [0x61] 0,
           new_block ideal_hash [0x46] 3 [0x62] 0,
           new_block ideal_hash [0x46] 3 [0x63] 0,
           new_block ideal_hash [0x46] 3 [0x61] 1]
          (new_chain ideal_hash))) None
   = Inr (alloc_all 1
          [new_block ideal_hash [0x46] 3 [0x61] 0,
           new_block ideal_hash [0x46] 3 [0x62] 0,
           new_block ideal_hash [0x46] 3 [0x63] 0,
           new_block ideal_hash [0x46] 3 [0x61] 1]
          (new_chain ideal_hash))"
  by (simp_all add: Blockchain_init_def chain_eval)

lemma merge_example_run:
  "insert_blocks ideal_hash [1, 2]
     (alloc_all 1
          [new_block ideal_hash [0x42] 1 [0x42] 0,
           new_block ideal_hash [0x43] 1 [0x43] 0,
           set_previous_block_hash ideal_hash [0x42, 0, 0x42, 0] (new_block ideal_hash [0x44] 1 [0x44] 0),
           set_previous_block_hash ideal_hash [0x44, 0, 0x44, 0x42, 0, 0x42, 0] (new_block ideal_hash [0x45] 1 [0x45] 0)]
          (new_chain ideal_hash))
   = (Inr (),
      \<lparr>heap =
           (start_heap ideal_hash)
             (1 := set_previous_block_hash ideal_hash [0] (new_block ideal_hash [0x42] 1 [0x42] 0),
              2 := set_previous_block_hash ideal_hash [0x42, 0, 0x42, 0] (new_block ideal_hash [0x43] 1 [0x43] 0),
              3 := set_previous_block_hash ideal_hash [0x42, 0, 0x42, 0] (new_block ideal_hash [0x44] 1 [0x44] 0),
              4 := set_previous_block_hash ideal_hash [0x44, 0, 0x44, 0x42, 0, 0x42, 0] (new_block ideal_hash [0x45] 1 [0x45] 0)),
         chain_dict =
           [(Some [0], 0),
            (Some [0x42, 0, 0x42, 0], 1),
            (Some [0x43, 0, 0x43, 0x42, 0, 0x42, 0], 2)],
         files =
           [([],
             [(ContentKey [0], ListVal [Some [0]])]),
            ([0x42],
             [(IndexAllKey, IntVal 1),
              (ContentKey [0x42, 0, 0x42], ListVal [Some [0x42, 0, 0x42, 0]])]),
            ([0x43],
             [(IndexAllKey, IntVal 1),
              (ContentKey [0x43, 0, 0x43], ListVal [Some [0x43, 0, 0x43, 0x42, 0, 0x42, 0]])])],
         latest_block = 2\<rparr>)"
  by (simp add: chain_eval fun_eq_iff)

lemma merge_example_state:
  "merge_example =
     \<lparr>heap =
        (start_heap ideal_hash)
          (1 := set_previous_block_hash ideal_hash [0] (new_block ideal_hash [0x42] 1 [0x42] 0),
           2 := set_previous_block_hash ideal_hash [0x42, 0, 0x42, 0] (new_block ideal_hash [0x43] 1 [0x43] 0),
           3 := set_previous_block_hash ideal_hash [0x42, 0, 0x42, 0] (new_block ideal_hash [0x44] 1 [0x44] 0),
           4 := set_previous_block_hash ideal_hash [0x44, 0, 0x44, 0x42, 0, 0x42, 0] (new_block ideal_hash [0x45] 1 [0x45] 0)),
      chain_dict =
        [(Some [0], 0),
         (Some [0x42, 0, 0x42, 0], 1),
         (Some [0x43, 0, 0x43, 0x42, 0, 0x42, 0], 2)],
      files =
        [([],
          [(ContentKey [0], ListVal [Some [0]])]),
         ([0x42],
          [(IndexAllKey, IntVal 1),
           (ContentKey [0x42, 0, 0x42], ListVal [Some [0x42, 0, 0x42, 0]])]),
         ([0x43],
          [(IndexAllKey, IntVal 1),
           (ContentKey [0x43, 0, 0x43], ListVal [Some [0x43, 0, 0x43, 0x42, 0, 0x42, 0]])])],
      latest_block = 2\<rparr>"
  by (simp only: merge_example_def merge_example_run snd_conv)

lemma merge_example_inserted:
  "insert_blocks ideal_hash [1, 2]
     (alloc_all 1
          [new_block ideal_hash [0x42] 1 [0x42] 0,
           new_block ideal_hash [0x43] 1 [0x43] 0,
           set_previous_block_hash ideal_hash [0x42, 0, 0x42, 0] (new_block ideal_hash [0x44] 1 [0x44] 0),
           set_previous_block_hash ideal_hash [0x44, 0, 0x44, 0x42, 0, 0x42, 0] (new_block ideal_hash [0x45] 1 [0x45] 0)]
          (new_chain ideal_hash))
   = (Inr (), merge_example)"
  by (simp only: merge_example_state merge_example_run)

lemma merge_example_start:
  "heap (alloc_all 1
          [new_block ideal_hash [0x42] 1 [0x42] 0,
           new_block ideal_hash [0x43] 1 [0x43] 0,
           set_previous_block_hash ideal_hash [0x42, 0, 0x42, 0] (new_block ideal_hash [0x44] 1 [0x44] 0),
           set_previous_block_hash ideal_hash [0x44, 0, 0x44, 0x42, 0, 0x42, 0] (new_block ideal_hash [0x45] 1 [0x45] 0)]
          (new_chain ideal_hash)) INITIAL_BLOCK = initial_block ideal_hash"
  "Blockchain_init (heap (alloc_all 1
          [new_block ideal_hash [0x42] 1 [0x42] 0,
           new_block ideal_hash [0x43] 1 [0x43] 0,
           set_previous_block_hash ideal_hash [0x42, 0, 0x42, 0] (new_block ideal_hash [0x44] 1 [0x44] 0),
           set_previous_block_hash ideal_hash [0x44, 0, 0x44, 0x42, 0, 0x42, 0] (new_block ideal_hash [0x45] 1 [0x45] 0)]
          (new_chain ideal_hash))) None
   = Inr (alloc_all 1
          [new_block ideal_hash [0x42] 1 [0x42] 0,
           new_block ideal_hash [0x43] 1 [0x43] 0,
           set_previous_block_hash ideal_hash [0x42, 0, 0x42, 0] (new_block ideal_hash [0x44] 1 [0x44] 0),
           set_previous_block_hash ideal_hash [0x44, 0, 0x44, 0x42, 0, 0x42, 0] (new_block ideal_hash [0x45] 1 [0x45] 0)]
          (new_chain ideal_hash))"
  by (simp_all add: Blockchain_init_def chain_eval)

lemma fork_example_run:
  "insert_blocks ideal_hash [1, 2]
     (alloc_all 1
          [new_block ideal_hash [0x46] 2 [0x61] 0,
           new_block ideal_hash [0x46] 2 [0x62] 1,
           set_previous_block_hash ideal_hash [0x46, 0, 0, 0x61, 0] (new_block ideal_hash [0x4b] 1 [0x6b] 0),
           set_previous_block_hash ideal_hash [0x4b, 0, 0x6b, 0x46, 0, 0, 0x61, 0] (new_block ideal_hash [0x46] 2 [0x62] 1)]
          (new_chain ideal_hash))
   = (Inr (),
      \<lparr>heap =
           (start_heap ideal_hash)
             (1 := set_previous_block_hash ideal_hash [0] (new_block ideal_hash [0x46] 2 [0x61] 0),
              2 := set_previous_block_hash ideal_hash [0x46, 0, 0, 0x61, 0] (new_block ideal_hash [0x46] 2 [0x62] 1),
              3 := set_previous_block_hash ideal_hash [0x46, 0, 0, 0x61, 0] (new_block ideal_hash [0x4b] 1 [0x6b] 0),
              4 := set_previous_block_hash ideal_hash [0x4b, 0, 0x6b, 0x46, 0, 0, 0x61, 0] (new_block ideal_hash [0x46] 2 [0x62] 1)),
         chain_dict =
           [(Some [0], 0),
            (Some [0x46, 0, 0, 0x61, 0], 1),
            (Some [0x46, 0, 0, 0x62, 0, 0x46, 0, 0, 0x61, 0], 2)],
         files =
           [([],
             [(ContentKey [0], ListVal [Some [0]])]),
            ([0x46],
             [(IndexAllKey, IntVal 2),
              (ContentKey [0x46, 0, 0, 0x61], ListVal [Some [0x46, 0, 0, 0x61, 0]]),
              (ContentKey [0x46, 0, 0, 0x62, 0], ListVal [Some [0x46, 0, 0, 0x62, 0, 0x46, 0, 0, 0x61, 0]])])],
         latest_block = 2\<rparr>)"
  by (simp add: chain_eval fun_eq_iff)

lemma fork_example_state:
  "fork_example =
     \<lparr>heap =
        (start_heap ideal_hash)
          (1 := set_previous_block_hash ideal_hash [0] (new_block ideal_hash [0x46] 2 [0x61] 0),
           2 := set_previous_block_hash ideal_hash [0x46, 0, 0, 0x61, 0] (new_block ideal_hash [0x46] 2 [0x62] 1),
           3 := set_previous_block_hash ideal_hash [0x46, 0, 0, 0x61, 0] (new_block ideal_hash [0x4b] 1 [0x6b] 0),
           4 := set_previous_block_hash ideal_hash [0x4b, 0, 0x6b, 0x46, 0, 0, 0x61, 0] (new_block ideal_hash [0x46] 2 [0x62] 1)),
      chain_dict =
        [(Some [0], 0),
         (Some [0x46, 0, 0, 0x61, 0], 1),
         (Some [0x46, 0, 0, 0x62, 0, 0x46, 0, 0, 0x61, 0], 2)],
      files =
        [([],
          [(ContentKey [0], ListVal [Some [0]])]),
         ([0x46],
          [(IndexAllKey, IntVal 2),
           (ContentKey [0x46, 0, 0, 0x61], ListVal [Some [0x46, 0, 0, 0x61, 0]]),
           (ContentKey [0x46, 0, 0, 0x62, 0], ListVal [Some [0x46, 0, 0, 0x62, 0, 0x46, 0, 0, 0x61, 0]])])],
      latest_block = 2\<rparr>"
  by (simp only: fork_example_def fork_example_run snd_conv)

lemma fork_example_inserted:
  "insert_blocks ideal_hash [1, 2]
     (alloc_all 1
          [new_block ideal_hash [0x46] 2 [0x61] 0,
           new_block ideal_hash [0x46] 2 [0x62] 1,
           set_previous_block_hash ideal_hash [0x46, 0, 0, 0x61, 0] (new_block ideal_hash [0x4b] 1 [0x6b] 0),
           set_previous_block_hash ideal_hash [0x4b, 0, 0x6b, 0x46, 0, 0, 0x61, 0] (new_block ideal_hash [0x46] 2 [0x62] 1)]
          (new_chain ideal_hash))
   = (Inr (), fork_example)"
  by (simp only: fork_example_state fork_example_run)

lemma fork_example_start:
  "heap (alloc_all 1
          [new_block ideal_hash [0x46] 2 [0x61] 0,
           new_block ideal_hash [0x46] 2 [0x62] 1,
           set_previous_block_hash ideal_hash [0x46, 0, 0, 0x61, 0] (new_block ideal_hash [0x4b] 1 [0x6b] 0),
           set_previous_block_hash ideal_hash [0x4b, 0, 0x6b, 0x46, 0, 0, 0x61, 0] (new_block ideal_hash [0x46] 2 [0x62] 1)]
          (new_chain ideal_hash)) INITIAL_BLOCK = initial_block ideal_hash"
  "Blockchain_init (heap (alloc_all 1
          [new_block ideal_hash [0x46] 2 [0x61] 0,
           new_block ideal_hash [0x46] 2 [0x62] 1,
           set_previous_block_hash ideal_hash [0x46, 0, 0, 0x61, 0] (new_block ideal_hash [0x4b] 1 [0x6b] 0),
           set_previous_block_hash ideal_hash [0x4b, 0, 0x6b, 0x46, 0, 0, 0x61, 0] (new_block ideal_hash [0x46] 2 [0x62] 1)]
          (new_chain ideal_hash))) None
   = Inr (alloc_all 1
          [new_block ideal_hash [0x46] 2 [0x61] 0,
           new_block ideal_hash [0x46] 2 [0x62] 1,
           set_previous_block_hash ideal_hash [0x46, 0, 0, 0x61, 0] (new_block ideal_hash [0x4b] 1 [0x6b] 0),
           set_previous_block_hash ideal_hash [0x4b, 0, 0x6b, 0x46, 0, 0, 0x61, 0] (new_block ideal_hash [0x46] 2 [0x62] 1)]
          (new_chain ideal_hash))"
  by (simp_all add: Blockchain_init_def chain_eval)

lemma peer_example_run:
  "insert_blocks ideal_hash [1, 2, 3]
     (alloc_all 1
          [new_block ideal_hash [0x46] 2 [0x61] 0,
           new_block ideal_hash [0x4b] 1 [0x6b] 0,
           new_block ideal_hash [0x46] 2 [0x62] 1]
          (new_chain ideal_hash))
   = (Inr (),
      \<lparr>heap =
           (start_heap ideal_hash)
             (1 := set_previous_block_hash ideal_hash [0] (new_block ideal_hash [0x46] 2 [0x61] 0),
              2 := set_previous_block_hash ideal_hash [0x46, 0, 0, 0x61, 0] (new_block ideal_hash [0x4b] 1 [0x6b] 0),
              3 := set_previous_block_hash ideal_hash [0x4b, 0, 0x6b, 0x46, 0, 0, 0x61, 0] (new_block ideal_hash [0x46] 2 [0x62] 1)),
         chain_dict =
           [(Some [0], 0),
            (Some [0x46, 0, 0, 0x61, 0], 1),
            (Some [0x4b, 0, 0x6b, 0x46, 0, 0, 0x61, 0], 2),
            (Some [0x46, 0, 0, 0x62, 0, 0x4b, 0, 0x6b, 0x46, 0, 0, 0x61, 0], 3)],
         files =
           [([],
             [(ContentKey [0], ListVal [Some [0]])]),
            ([0x46],
             [(IndexAllKey, IntVal 2),
              (ContentKey [0x46, 0, 0, 0x61], ListVal [Some [0x46, 0, 0, 0x61, 0]]),
              (ContentKey [0x46, 0, 0, 0x62, 0], ListVal [Some [0x46, 0, 0, 0x62, 0, 0x4b, 0, 0x6b, 0x46, 0, 0, 0x61, 0]])]),
            ([0x4b],
             [(IndexAllKey, IntVal 1),
              (ContentKey [0x4b, 0, 0x6b], ListVal [Some [0x4b, 0, 0x6b, 0x46, 0, 0, 0x61, 0]])])],
         latest_block = 3\<rparr>)"
  by (simp add: chain_eval fun_eq_iff)

lemma peer_example_state:
  "peer_example =
     \<lparr>heap =
        (start_heap ideal_hash)
          (1 := set_previous_block_hash ideal_hash [0] (new_block ideal_hash [0x46] 2 [0x61] 0),
           2 := set_previous_block_hash ideal_hash [0x46, 0, 0, 0x61, 0] (new_block ideal_hash [0x4b] 1 [0x6b] 0),
           3 := set_previous_block_hash ideal_hash [0x4b, 0, 0x6b, 0x46, 0, 0, 0x61, 0] (new_block ideal_hash [0x46] 2 [0x62] 1)),
      chain_dict =
        [(Some [0], 0),
         (Some [0x46, 0, 0, 0x61, 0], 1),
         (Some [0x4b, 0, 0x6b, 0x46, 0, 0, 0x61, 0], 2),
         (Some [0x46, 0, 0, 0x62, 0, 0x4b, 0, 0x6b, 0x46, 0, 0, 0x61, 0], 3)],
      files =
        [([],
          [(ContentKey [0], ListVal [Some [0]])]),
         ([0x46],
          [(IndexAllKey, IntVal 2),
           (ContentKey [0x46, 0, 0, 0x61], ListVal [Some [0x46, 0, 0, 0x61, 0]]),
           (ContentKey [0x46, 0, 0, 0x62, 0], ListVal [Some [0x46, 0, 0, 0x62, 0, 0x4b, 0, 0x6b, 0x46, 0, 0, 0x61, 0]])]),
         ([0x4b],
          [(IndexAllKey, IntVal 1),
           (ContentKey [0x4b, 0, 0x6b], ListVal [Some [0x4b, 0, 0x6b, 0x46, 0, 0, 0x61, 0]])])],
      latest_block = 3\<rparr>"
  by (simp only: peer_example_def peer_example_run snd_conv)

lemma peer_example_inserted:
  "insert_blocks ideal_hash [1, 2, 3]
     (alloc_all 1
          [new_block ideal_hash [0x46] 2 [0x61] 0,
           new_block ideal_hash [0x4b] 1 [0x6b] 0,
           new_block ideal_hash [0x46] 2 [0x62] 1]
          (new_chain ideal_hash))
   = (Inr (), peer_example)"
  by (simp only: peer_example_state peer_example_run)

lemma peer_example_start:
  "heap (alloc_all 1
          [new_block ideal_hash [0x46] 2 [0x61] 0,
           new_block ideal_hash [0x4b] 1 [0x6b] 0,
           new_block ideal_hash [0x46] 2 [0x62] 1]
          (new_chain ideal_hash)) INITIAL_BLOCK = initial_block ideal_hash"
  "Blockchain_init (heap (alloc_all 1
          [new_block ideal_hash [0x46] 2 [0x61] 0,
           new_block ideal_hash [0x4b] 1 [0x6b] 0,
           new_block ideal_hash [0x46] 2 [0x62] 1]
          (new_chain ideal_hash))) None
   = Inr (alloc_all 1
          [new_block ideal_hash [0x46] 2 [0x61] 0,
           new_block ideal_hash [0x4b] 1 [0x6b] 0,
           new_block ideal_hash [0x46] 2 [0x62] 1]
          (new_chain ideal_hash))"
  by (simp_all add: Blockchain_init_def chain_eval)








lemma partial_example_start:
  "heap (alloc_all 1
          [new_block ideal_hash [0x46] 3 [0x58] 0]
          (new_chain ideal_hash)) INITIAL_BLOCK = initial_block ideal_hash"
  "Blockchain_init (heap (alloc_all 1
          [new_block ideal_hash [0x46] 3 [0x58] 0]
          (new_chain ideal_hash))) None
   = Inr (alloc_all 1
          [new_block ideal_hash [0x46] 3 [0x58] 0]
          (new_chain ideal_hash))"
  by (simp_all add: Blockchain_init_def chain_eval)

lemma reversed_example_run:
  "insert_blocks ideal_hash [1, 2, 3]
     (alloc_all 1
          [new_block ideal_hash [0x46] 3 [0x63] 2,
           new_block ideal_hash [0x46] 3 [0x62] 1,
           new_block ideal_hash [0x46] 3 [0x61] 0]
          (new_chain ideal_hash))
   = (Inr (),
      \<lparr>heap =
           (start_heap ideal_hash)
             (1 := set_previous_block_hash ideal_hash [0] (new_block ideal_hash [0x46] 3 [0x63] 2),
              2 := set_previous_block_hash ideal_hash [0x46, 0, 0, 0, 0x63, 0, 0, 0] (new_block ideal_hash [0x46] 3 [0x62] 1),
              3 := set_previous_block_hash ideal_hash [0x46, 0, 0, 0, 0x62, 0, 0x46, 0, 0, 0, 0x63, 0, 0, 0] (new_block ideal_hash [0x46] 3 [0x61] 0)),
         chain_dict =
           [(Some [0], 0),
            (Some [0x46, 0, 0, 0, 0x63, 0, 0, 0], 1),
            (Some [0x46, 0, 0, 0, 0x62, 0, 0x46, 0, 0, 0, 0x63, 0, 0, 0], 2),
            (Some [0x46, 0, 0, 0, 0x61, 0x46, 0, 0, 0, 0x62, 0, 0x46, 0, 0, 0, 0x63, 0, 0, 0], 3)],
         files =
           [([],
             [(ContentKey [0], ListVal [Some [0]])]),
            ([0x46],
             [(IndexAllKey, IntVal 3),
              (ContentKey [0x46, 0, 0, 0, 0x63, 0, 0], ListVal [Some [0x46, 0, 0, 0, 0x63, 0, 0, 0]]),
              (ContentKey [0x46, 0, 0, 0, 0x62, 0], ListVal [Some [0x46, 0, 0, 0, 0x62, 0, 0x46, 0, 0, 0, 0x63, 0, 0, 0]]),
              (ContentKey [0x46, 0, 0, 0, 0x61], ListVal [Some [0x46, 0, 0, 0, 0x61, 0x46, 0, 0, 0, 0x62, 0, 0x46, 0, 0, 0, 0x63, 0, 0, 0]])])],
         latest_block = 3\<rparr>)"
  by (simp add: chain_eval fun_eq_iff)

lemma reversed_example_state:
  "reversed_example =
     \<lparr>heap =
        (start_heap ideal_hash)
          (1 := set_previous_block_hash ideal_hash [0] (new_block ideal_hash [0x46] 3 [0x63] 2),
           2 := set_previous_block_hash ideal_hash [0x46, 0, 0, 0, 0x63, 0, 0, 0] (new_block ideal_hash [0x46] 3 [0x62] 1),
           3 := set_previous_block_hash ideal_hash [0x46, 0, 0, 0, 0x62, 0, 0x46, 0, 0, 0, 0x63, 0, 0, 0] (new_block ideal_hash [0x46] 3 [0x61] 0)),
      chain_dict =
        [(Some [0], 0),
         (Some [0x46, 0, 0, 0, 0x63, 0, 0, 0], 1),
         (Some [0x46, 0, 0, 0, 0x62, 0, 0x46, 0, 0, 0, 0x63, 0, 0, 0], 2),
         (Some [0x46, 0, 0, 0, 0x61, 0x46, 0, 0, 0, 0x62, 0, 0x46, 0, 0, 0, 0x63, 0, 0, 0], 3)],
      files =
        [([],
          [(ContentKey [0], ListVal [Some [0]])]),
         ([0x46],
          [(IndexAllKey, IntVal 3),
           (ContentKey [0x46, 0, 0, 0, 0x63, 0, 0], ListVal [Some [0x46, 0, 0, 0, 0x63, 0, 0, 0]]),
           (ContentKey [0x46, 0, 0, 0, 0x62, 0], ListVal [Some [0x46, 0, 0, 0, 0x62, 0, 0x46, 0, 0, 0, 0x63, 0, 0, 0]]),
           (ContentKey [0x46, 0, 0, 0, 0x61], ListVal [Some [0x46, 0, 0, 0, 0x61, 0x46, 0, 0, 0, 0x62, 0, 0x46, 0, 0, 0, 0x63, 0, 0, 0]])])],
      latest_block = 3\<rparr>"
  by (simp only: reversed_example_def reversed_example_run snd_conv)

lemma reversed_example_inserted:
  "insert_blocks ideal_hash [1, 2, 3]
     (alloc_all 1
          [new_block ideal_hash [0x46] 3 [0x63] 2,
           new_block ideal_hash [0x46] 3 [0x62] 1,
           new_block ideal_hash [0x46] 3 [0x61] 0]
          (new_chain ideal_hash))
   = (Inr (), reversed_example)"
  by (simp only: reversed_example_state reversed_example_run)

lemma reversed_example_start:
  "heap (alloc_all 1
          [new_block ideal_hash [0x46] 3 [0x63] 2,
           new_block ideal_hash [0x46] 3 [0x62] 1,
           new_block ideal_hash [0x46] 3 [0x61] 0]
          (new_chain ideal_hash)) INITIAL_BLOCK = initial_block ideal_hash"
  "Blockchain_init (heap (alloc_all 1
          [new_block ideal_hash [0x46] 3 [0x63] 2,
           new_block ideal_hash [0x46] 3 [0x62] 1,
           new_block ideal_hash [0x46] 3 [0x61] 0]
          (new_chain ideal_hash))) None
   = Inr (alloc_all 1
          [new_block ideal_hash [0x46] 3 [0x63] 2,
           new_block ideal_hash [0x46] 3 [0x62] 1,
           new_block ideal_hash [0x46] 3 [0x61] 0]
          (new_chain ideal_hash))"
  by (simp_all add: Blockchain_init_def chain_eval)

lemma resplit_example_run:
  "insert_blocks ideal_hash [1, 2]
     (alloc_all 1
          [new_block ideal_hash [0x46] 3 [0x58] 0,
           new_block ideal_hash [0x46] 2 [0x59] 0]
          (new_chain ideal_hash))
   = (Inr (),
      \<lparr>heap =
           (start_heap ideal_hash)
             (1 := set_previous_block_hash ideal_hash [0] (new_block ideal_hash [0x46] 3 [0x58] 0),
              2 := set_previous_block_hash ideal_hash [0x46, 0, 0, 0, 0x58, 0] (new_block ideal_hash [0x46] 2 [0x59] 0)),
         chain_dict =
           [(Some [0], 0),
            (Some [0x46, 0, 0, 0, 0x58, 0], 1),
            (Some [0x46, 0, 0, 0x59, 0x46, 0, 0, 0, 0x58, 0], 2)],
         files =
           [([],
             [(ContentKey [0], ListVal [Some [0]])]),
            ([0x46],
             [(IndexAllKey, IntVal 3),
              (ContentKey [0x46, 0, 0, 0, 0x58], ListVal [Some [0x46, 0, 0, 0, 0x58, 0]]),
              (ContentKey [0x46, 0, 0, 0x59], ListVal [Some [0x46, 0, 0, 0x59, 0x46, 0, 0, 0, 0x58, 0]])])],
         latest_block = 2\<rparr>)"
  by (simp add: chain_eval fun_eq_iff)

lemma resplit_example_state:
  "resplit_example =
     \<lparr>heap =
        (start_heap ideal_hash)
          (1 := set_previous_block_hash ideal_hash [0] (new_block ideal_hash [0x46] 3 [0x58] 0),
           2 := set_previous_block_hash ideal_hash [0x46, 0, 0, 0, 0x58, 0] (new_block ideal_hash [0x46] 2 [0x59] 0)),
      chain_dict =
        [(Some [0], 0),
         (Some [0x46, 0, 0, 0, 0x58, 0], 1),
         (Some [0x46, 0, 0, 0x59, 0x46, 0, 0, 0, 0x58, 0], 2)],
      files =
        [([],
          [(ContentKey [0], ListVal [Some [0]])]),
         ([0x46],
          [(IndexAllKey, IntVal 3),
           (ContentKey [0x46, 0, 0, 0, 0x58], ListVal [Some [0x46, 0, 0, 0, 0x58, 0]]),
           (ContentKey [0x46, 0, 0, 0x59], ListVal [Some [0x46, 0, 0, 0x59, 0x46, 0, 0, 0, 0x58, 0]])])],
      latest_block = 2\<rparr>"
  by (simp only: resplit_example_def resplit_example_run snd_conv)

lemma resplit_example_inserted:
  "insert_blocks ideal_hash [1, 2]
     (alloc_all 1
          [new_block ideal_hash [0x46] 3 [0x58] 0,
           new_block ideal_hash [0x46] 2 [0x59] 0]
          (new_chain ideal_hash))
   = (Inr (), resplit_example)"
  by (simp only: resplit_example_state resplit_example_run)

lemma resplit_example_start:
  "heap (alloc_all 1
          [new_block ideal_hash [0x46] 3 [0x58] 0,
           new_block ideal_hash [0x46] 2 [0x59] 0]
          (new_chain ideal_hash)) INITIAL_BLOCK = initial_block ideal_hash"
  "Blockchain_init (heap (alloc_all 1
          [new_block ideal_hash [0x46] 3 [0x58] 0,
           new_block ideal_hash [0x46] 2 [0x59] 0]
          (new_chain ideal_hash))) None
   = Inr (alloc_all 1
          [new_block ideal_hash [0x46] 3 [0x58] 0,
           new_block ideal_hash [0x46] 2 [0x59] 0]
          (new_chain ideal_hash))"
  by (simp_all add: Blockchain_init_def chain_eval)

lemma once_example_run:
  "insert_blocks ideal_hash [1]
     (alloc_all 1
          [new_block ideal_hash [0x46] 1 [0x68, 0x69] 0]
          (new_chain ideal_hash))
   = (Inr (),
      \<lparr>heap =
           (start_heap ideal_hash)
             (1 := set_previous_block_hash ideal_hash [0] (new_block ideal_hash [0x46] 1 [0x68, 0x69] 0)),
         chain_dict =
           [(Some [0], 0),
            (Some [0x46, 0, 0x68, 0x69, 0], 1)],
         files =
           [([],
             [(ContentKey [0], ListVal [Some [0]])]),
            ([0x46],
             [(IndexAllKey, IntVal 1),
              (ContentKey [0x46, 0, 0x68, 0x69], ListVal [Some [0x46, 0, 0x68, 0x69, 0]])])],
         latest_block = 1\<rparr>)"
  by (simp add: chain_eval fun_eq_iff)

lemma once_example_state:
  "once_example =
     \<lparr>heap =
        (start_heap ideal_hash)
          (1 := set_previous_block_hash ideal_hash [0] (new_block ideal_hash [0x46] 1 [0x68, 0x69] 0)),
      chain_dict =
        [(Some [0], 0),
         (Some [0x46, 0, 0x68, 0x69, 0], 1)],
      files =
        [([],
          [(ContentKey [0], ListVal [Some [0]])]),
         ([0x46],
          [(IndexAllKey, IntVal 1),
           (ContentKey [0x46, 0, 0x68, 0x69], ListVal [Some [0x46, 0, 0x68, 0x69, 0]])])],
      latest_block = 1\<rparr>"
  by (simp only: once_example_def once_example_run snd_conv)

lemma once_example_inserted:
  "insert_blocks ideal_hash [1]
     (alloc_all 1
          [new_block ideal_hash [0x46] 1 [0x68, 0x69] 0]
          (new_chain ideal_hash))
   = (Inr (), once_example)"
  by (simp only: once_example_state once_example_run)

lemma once_example_start:
  "heap (alloc_all 1
          [new_block ideal_hash [0x46] 1 [0x68, 0x69] 0]
          (new_chain ideal_hash)) INITIAL_BLOCK = initial_block ideal_hash"
  "Blockchain_init (heap (alloc_all 1
          [new_block ideal_hash [0x46] 1 [0x68, 0x69] 0]
          (new_chain ideal_hash))) None
   = Inr (alloc_all 1
          [new_block ideal_hash [0x46] 1 [0x68, 0x69] 0]
          (new_chain ideal_hash))"
  by (simp_all add: Blockchain_init_def chain_eval)





section \<open>Block identity\<close>

text \<open>
  C10: the content hash does not identify the payload fields. The blocks
  \<open>(fh, index_all = 2, chunk = b"", index = 0)\<close> and
  \<open>(fh, index_all = 1, chunk = b"\x00", index = 0)\<close> are both accepted by the
  constructor, differ in \<open>index_all\<close> and in \<open>chunk\<close>, and get the same content hash
  under every hash function, because the hashed string is the same: the zero-filled
  \<open>bytes(index_all)\<close>, the chunk and \<open>bytes(index)\<close> are concatenated without delimiters.
\<close>

theorem content_hash_not_injective:
  "\<exists>b1 b2. Block_init H fh 2 [] 0 None = Inr b1
         \<and> Block_init H fh 1 [0] 0 None = Inr b2
         \<and> file_hash b1 = file_hash b2 \<and> index b1 = index b2
         \<and> index_all b1 \<noteq> index_all b2 \<and> chunk b1 \<noteq> chunk b2
         \<and> payload b1 = payload b2
         \<and> content_hash b1 = content_hash b2"
  by (simp add: Block_init_def payload_def py_bytes_def numeral_2_eq_2)

section \<open>The split check of insert_block\<close>









section \<open>merge_blocks with nothing new\<close>

lemma merge_scan_all_present:
  "list_all (\<lambda>a. map_of (chain_dict s) (block_hash (heap s a)) \<noteq> None) as
   \<Longrightarrow> merge_scan as s added start = (Inr (added, start), s)"
  by (induction as) auto

text \<open>
  C3: on the empty list, and on a list whose blocks are all in \<open>self.__chain\<close> already,
  \<open>merge_blocks\<close> does not return an empty list: nothing sets
  \<open>starting_conflicted_block\<close>, and \<open>starting_conflicted_block.block_hash\<close> raises
  \<open>AttributeError\<close>. The state is left as it was.
\<close>

theorem merge_blocks_nothing_new:
  "merge_blocks H [] s = (Inl AttributeError, s)
   \<and> (list_all (\<lambda>a. map_of (chain_dict s) (block_hash (heap s a)) \<noteq> None) new_blocks
       \<longrightarrow> merge_blocks H new_blocks s = (Inl AttributeError, s))"
  by (simp add: merge_blocks_def merge_scan_all_present)

lemma merge_example_present:
  "list_all (\<lambda>a. map_of (chain_dict merge_example)
       (block_hash (heap merge_example a)) \<noteq> None) [1, 2]"
  by (simp add: merge_example_state chain_eval)

theorem merge_blocks_nothing_new_witness:
  "list_all (\<lambda>a. map_of (chain_dict merge_example)
       (block_hash (heap merge_example a)) \<noteq> None) [1, 2]
   \<and> merge_blocks ideal_hash [1, 2] merge_example = (Inl AttributeError, merge_example)
   \<and> merge_blocks ideal_hash [] merge_example = (Inl AttributeError, merge_example)"
  using merge_blocks_nothing_new [of ideal_hash merge_example "[1, 2]"]
    merge_example_present
  by blast

section \<open>contains_file on the genesis file\<close>

text \<open>
  C9: on the chain built without a seed list, \<open>contains_file(b"")\<close> returns no boolean.
  The constructor enters the genesis block in \<open>self.__files\<close> without an \<open>"index_all"\<close>
  key, so \<open>file_blocks["index_all"] + 1\<close> adds an int to the list the \<open>defaultdict\<close>
  creates: \<open>TypeError\<close>. The seeded constructor writes the key, and there the call
  returns a boolean.
\<close>

theorem contains_file_genesis_type_error:
  "Blockchain_init (start_heap H) None = Inr (new_chain H)
   \<and> fst (contains_file [] (new_chain H)) = Inl TypeError
   \<and> (\<exists>s. Blockchain_init (start_heap H) (Some [INITIAL_BLOCK]) = Inr s
          \<and> fst (contains_file [] s) = Inr True)"
  by (simp add: Blockchain_init_def new_chain_def start_heap_def initial_block_def
      files_append_def files_getitem_def file_blocks_getitem_def py_bytes_def
      contains_file_def files_setitem_def)

section \<open>Walking a linked chain\<close>

lemma linked_head_present:
  "linked s (a # p) \<Longrightarrow> map_of (chain_dict s) (block_hash (heap s a)) = Some a"
  by (cases p) auto

lemma verify_walk_linked:
  "linked s (a # p) \<Longrightarrow>
   verify_walk s a fbn = Some (fold count_block (map (heap s) p) fbn = [])"
proof (induction p arbitrary: a fbn)
  case Nil
  then show ?case
    by (auto simp: verify_walk.simps py_bytes_def)
next
  case (Cons b p)
  from Cons.prems have prev: "previous_block_hash (heap s a) = block_hash (heap s b)"
    and ne: "block_hash (heap s b) \<noteq> Some []" and rest: "linked s (b # p)"
    by simp_all
  from rest have "map_of (chain_dict s) (block_hash (heap s b)) = Some b"
    by (rule linked_head_present)
  with prev ne have "verify_walk s a fbn = verify_walk s b (count_block (heap s b) fbn)"
    by (subst verify_walk.simps) (simp add: py_bytes_def)
  also have "\<dots> = Some (fold count_block (map (heap s) p) (count_block (heap s b) fbn) = [])"
    using rest by (rule Cons.IH)
  finally show ?case by simp
qed

lemma chain_walk_linked:
  "linked s (a # p) \<Longrightarrow> chain_walk s a blocks = Some (Inr (blocks @ p))"
proof (induction p arbitrary: a blocks)
  case Nil
  then show ?case
    by (auto simp: chain_walk.simps py_bytes_def)
next
  case (Cons b p)
  from Cons.prems have prev: "previous_block_hash (heap s a) = block_hash (heap s b)"
    and ne: "block_hash (heap s b) \<noteq> Some []" and rest: "linked s (b # p)"
    by simp_all
  from rest have "map_of (chain_dict s) (block_hash (heap s b)) = Some b"
    by (rule linked_head_present)
  with prev ne have "chain_walk s a blocks = chain_walk s b (blocks @ [b])"
    by (subst chain_walk.simps) (simp add: py_bytes_def)
  also have "\<dots> = Some (Inr ((blocks @ [b]) @ p))"
    using rest by (rule Cons.IH)
  finally show ?case by simp
qed

lemma count_tip_eq: "count_tip b = count_block b []"
  by (simp add: count_tip_def count_block_def)

lemma verify_integrity_linked:
  assumes "linked s (a # p)" and "latest_block s = a"
  shows "verify_integrity s = Some (fold count_block (map (heap s) (a # p)) [] = [])"
  using verify_walk_linked [OF assms(1)] assms(2)
  by (simp add: verify_integrity_def count_tip_eq)

lemma chain_list_linked:
  assumes "linked s (a # p)" and "latest_block s = a"
  shows "chain_list s = Some (Inr (a # p))"
  using chain_walk_linked [OF assms(1)] assms(2)
  by (simp add: chain_list_def)

text \<open>Frame: linkage only reads the store at the path and the dictionary at its hashes.\<close>

lemma linked_frame:
  assumes "linked s p"
    and "\<And>x. x \<in> set p \<Longrightarrow> heap s' x = heap s x"
    and "\<And>x. x \<in> set p \<Longrightarrow>
           map_of (chain_dict s') (block_hash (heap s x)) = map_of (chain_dict s) (block_hash (heap s x))"
  shows "linked s' p"
  using assms
proof (induction s p rule: linked.induct)
  case (1 s)
  then show ?case by simp
next
  case (2 s a)
  then show ?case by auto
next
  case (3 s a b p)
  then show ?case by simp
qed

text \<open>What a successful insert_block did to store, chain dictionary and tip.\<close>

lemma link_block_Inr:
  assumes "link_block H a s = (Inr u, s')"
  shows "\<exists>h. block_hash (heap s (latest_block s)) = Some h
           \<and> heap s' = (heap s)(a := set_previous_block_hash H h (heap s a))
           \<and> chain_dict s' = AList.update (Some (H (payload (heap s a) @ h))) a (chain_dict s)
           \<and> latest_block s' = a"
  using assms
  by (auto simp: link_block_def Let_def set_previous_block_hash_def
      split: option.splits sum.splits)

lemma insert_block_Inr:
  assumes "insert_block H a s = (Inr u, s')"
  shows "\<exists>h. block_hash (heap s (latest_block s)) = Some h
           \<and> heap s' = (heap s)(a := set_previous_block_hash H h (heap s a))
           \<and> chain_dict s' = AList.update (Some (H (payload (heap s a) @ h))) a (chain_dict s)
           \<and> latest_block s' = a"
proof -
  from assms have "link_block H a s = (Inr u, s')
      \<or> link_block H a (s\<lparr>files := files_setitem (files s) (file_hash (heap s a)) IndexAllKey
            (IntVal (index_all (heap s a)))\<rparr>) = (Inr u, s')"
    by (auto simp: insert_block_def Let_def split: option.splits if_splits prod.splits fval.splits)
  then show ?thesis
    by (auto dest!: link_block_Inr)
qed

lemma link_block_heap_other:
  "link_block H a s = (r, s') \<Longrightarrow> x \<noteq> a \<Longrightarrow> heap s' x = heap s x"
  by (auto simp: link_block_def Let_def split: option.splits sum.splits)

lemma insert_block_heap_other:
  "insert_block H a s = (r, s') \<Longrightarrow> x \<noteq> a \<Longrightarrow> heap s' x = heap s x"
  by (auto simp: insert_block_def Let_def
      split: option.splits if_splits prod.splits fval.splits dest: link_block_heap_other)

lemma insert_blocks_heap_other:
  "insert_blocks H as s = (r, s') \<Longrightarrow> x \<notin> set as \<Longrightarrow> heap s' x = heap s x"
proof (induction as arbitrary: s)
  case Nil
  then show ?case by simp
next
  case (Cons a as)
  obtain r1 s1 where step: "insert_block H a s = (r1, s1)"
    by (cases "insert_block H a s")
  from Cons.prems(2) have xa: "x \<noteq> a" and xas: "x \<notin> set as" by simp_all
  from step xa have h1: "heap s1 x = heap s x"
    by (rule insert_block_heap_other)
  show ?case
  proof (cases r1)
    case (Inl e)
    with Cons.prems(1) step h1 show ?thesis by simp
  next
    case (Inr u)
    with Cons.prems(1) step have "insert_blocks H as s1 = (r, s')" by simp
    then have "heap s' x = heap s1 x" using xas by (rule Cons.IH)
    with h1 show ?thesis by simp
  qed
qed

lemma insert_block_linked:
  assumes ins: "insert_block H a s = (Inr u, s')"
    and lk: "linked s (t # p)" and tip: "latest_block s = t"
    and fresh: "a \<notin> set (t # p)"
    and nc: "no_collision s' (a # t # p)"
  shows "linked s' (a # t # p) \<and> latest_block s' = a"
proof -
  from insert_block_Inr [OF ins] tip obtain h where
    h: "block_hash (heap s t) = Some h"
    and hp: "heap s' = (heap s)(a := set_previous_block_hash H h (heap s a))"
    and cd: "chain_dict s' = AList.update (Some (H (payload (heap s a) @ h))) a (chain_dict s)"
    and lt: "latest_block s' = a"
    by auto
  have same: "heap s' x = heap s x" if "x \<in> set (t # p)" for x
    using that fresh hp by auto
  have ha: "block_hash (heap s' a) = Some (H (payload (heap s a) @ h))"
    by (simp add: hp set_previous_block_hash_def)
  have other: "map_of (chain_dict s') (block_hash (heap s x)) = map_of (chain_dict s) (block_hash (heap s x))"
    if "x \<in> set (t # p)" for x
  proof -
    from nc that fresh have "block_hash (heap s' a) \<noteq> block_hash (heap s' x)"
      by (auto simp: no_collision_def)
    with same [OF that] ha have "Some (H (payload (heap s a) @ h)) \<noteq> block_hash (heap s x)"
      by simp
    then show ?thesis
      by (simp add: cd update_conv')
  qed
  from lk same other have lk': "linked s' (t # p)"
    by (rule linked_frame)
  have "previous_block_hash (heap s' a) = block_hash (heap s' t)"
    using h same [of t] by (simp add: hp set_previous_block_hash_def)
  moreover have "block_hash (heap s' t) \<noteq> Some []"
    using nc by (simp add: no_collision_def)
  moreover have "map_of (chain_dict s') (block_hash (heap s' a)) = Some a"
    by (simp add: ha cd update_conv')
  ultimately show ?thesis
    using lk' lt by simp
qed

lemma no_collision_cong:
  assumes "no_collision s as" and "\<And>x. x \<in> set as \<Longrightarrow> heap s' x = heap s x"
  shows "no_collision s' as"
proof -
  have eq1: "map (\<lambda>a. block_hash (heap s' a)) as = map (\<lambda>a. block_hash (heap s a)) as"
    by (rule map_cong [OF refl]) (simp add: assms(2))
  have eq2: "list_all (\<lambda>a. block_hash (heap s' a) \<noteq> Some []) as
      = list_all (\<lambda>a. block_hash (heap s a) \<noteq> Some []) as"
    by (rule list_all_cong [OF refl]) (simp add: assms(2))
  from assms(1) show ?thesis
    by (simp only: no_collision_def eq1 eq2)
qed

lemma insert_blocks_linked:
  assumes "insert_blocks H as s = (Inr u, s')"
    and "linked s (t # p)" and "latest_block s = t"
    and "distinct as" and "set as \<inter> set (t # p) = {}"
    and "no_collision s' (rev as @ t # p)"
  shows "linked s' (rev as @ t # p) \<and> latest_block s' = hd (rev as @ [t])"
  using assms
proof (induction as arbitrary: s t p)
  case Nil
  then show ?case by simp
next
  case (Cons a as)
  obtain r1 s1 where step: "insert_block H a s = (r1, s1)"
    by (cases "insert_block H a s")
  with Cons.prems(1) obtain u1 where r1: "r1 = Inr u1" and rest: "insert_blocks H as s1 = (Inr u, s')"
    by (cases r1) auto
  from Cons.prems(4) have a_as: "a \<notin> set as" and dist: "distinct as" by simp_all
  from Cons.prems(5) have a_p: "a \<notin> set (t # p)" and as_p: "set as \<inter> set (a # t # p) = {}"
    using a_as by auto
  have "heap s1 x = heap s' x" if "x \<in> set (a # t # p)" for x
  proof -
    from that as_p have "x \<notin> set as" by auto
    with rest show ?thesis by (rule insert_blocks_heap_other [symmetric])
  qed
  moreover from Cons.prems(6) have "no_collision s' (a # t # p)"
    by (auto simp: no_collision_def)
  ultimately have nc1: "no_collision s1 (a # t # p)"
    by (rule no_collision_cong [rotated])
  from step r1 have "insert_block H a s = (Inr u1, s1)" by simp
  from insert_block_linked [OF this Cons.prems(2,3) a_p nc1]
  have lk1: "linked s1 (a # t # p)" and tip1: "latest_block s1 = a" by simp_all
  from Cons.prems(6) have "no_collision s' (rev as @ a # t # p)" by simp
  from Cons.IH [OF rest lk1 tip1 dist as_p this]
  show ?case by (cases "rev as") simp_all
qed

section \<open>The countdown of verify_integrity\<close>

lemma mod_step:
  fixes n x :: int
  assumes "1 < n" and "0 \<le> x"
  shows "(x + 1) mod n = (if x mod n + 1 = n then 0 else x mod n + 1)"
proof -
  have r: "0 \<le> x mod n" "x mod n < n"
    using assms by simp_all
  have "(x + 1) mod n = (x mod n + 1) mod n"
    by (simp add: mod_add_left_eq)
  also have "\<dots> = (if x mod n + 1 = n then 0 else x mod n + 1)"
    using r by auto
  finally show ?thesis .
qed

lemma count_block_single: "\<not> 1 < index_all b \<Longrightarrow> count_block b fbn = fbn"
  by (simp add: count_block_def)

lemma count_fold_lookup:
  assumes N: "\<And>b. b \<in> set ws \<Longrightarrow> 1 < index_all b \<Longrightarrow> index_all b = N (file_hash b)"
  shows "map_of (fold count_block ws []) F =
           (if int (length (file_chunks F ws)) mod N F = 0 then None
            else Some (N F - int (length (file_chunks F ws)) mod N F))"
  using N
proof (induction ws arbitrary: F rule: rev_induct)
  case Nil
  then show ?case by (simp add: file_chunks_def)
next
  case (snoc b ws)
  let ?d = "fold count_block ws []"
  let ?c = "\<lambda>F. int (length (file_chunks F ws))"
  have IH: "map_of ?d F = (if ?c F mod N F = 0 then None else Some (N F - ?c F mod N F))" for F
  proof (rule snoc.IH)
    fix c assume "c \<in> set ws" "1 < index_all c"
    then show "index_all c = N (file_hash c)"
      using snoc.prems by simp
  qed
  show ?case
  proof (cases "1 < index_all b")
    case False
    then have "file_chunks F (ws @ [b]) = file_chunks F ws"
      by (simp add: file_chunks_def)
    with False IH show ?thesis
      by (simp add: count_block_single)
  next
    case True
    with snoc.prems have n: "index_all b = N (file_hash b)" by simp
    show ?thesis
    proof (cases "F = file_hash b")
      case False
      then have "file_chunks F (ws @ [b]) = file_chunks F ws"
        by (auto simp: file_chunks_def)
      moreover from False have "map_of (count_block b ?d) F = map_of ?d F"
        by (simp add: count_block_def update_conv' delete_conv' split: option.splits)
      ultimately show ?thesis using IH by simp
    next
      case F: True
      with True have len: "int (length (file_chunks F (ws @ [b]))) = ?c F + 1"
        by (simp add: file_chunks_def)
      from True n F have n1: "1 < N F" by simp
      have step: "(?c F + 1) mod N F = (if ?c F mod N F + 1 = N F then 0 else ?c F mod N F + 1)"
        using n1 by (rule mod_step) simp
      have r: "0 \<le> ?c F mod N F" "?c F mod N F < N F"
        using n1 by simp_all
      show ?thesis
      proof (cases "?c F mod N F = 0")
        case True
        with IH have "map_of ?d F = None" by simp
        with \<open>1 < index_all b\<close> n F have "map_of (count_block b ?d) F = Some (N F - 1)"
          by (simp add: count_block_def update_conv')
        with True step n1 len show ?thesis by simp
      next
        case False
        with IH have look: "map_of ?d F = Some (N F - ?c F mod N F)" by simp
        show ?thesis
        proof (cases "?c F mod N F + 1 = N F")
          case True
          with look \<open>1 < index_all b\<close> n F have "map_of (count_block b ?d) F = None"
            by (simp add: count_block_def delete_conv')
          with True step len show ?thesis by simp
        next
          case False
          with look \<open>1 < index_all b\<close> n F
          have "map_of (count_block b ?d) F = Some (N F - ?c F mod N F - 1)"
            by (simp add: count_block_def update_conv')
          with False step len r show ?thesis by simp
        qed
      qed
    qed
  qed
qed

lemma map_of_empty_iff: "map_of d = Map.empty \<longleftrightarrow> d = []"
  by (cases d) (auto simp: fun_eq_iff)

lemma count_fold_whole_files:
  assumes "same_split ws"
  shows "fold count_block ws [] = [] \<longleftrightarrow> whole_files ws"
proof -
  define N where "N F = (case file_chunks F ws of [] \<Rightarrow> 0 | b # _ \<Rightarrow> index_all b)" for F
  have N: "index_all b = N (file_hash b)" if "b \<in> set ws" "1 < index_all b" for b
  proof -
    from that have "b \<in> set (file_chunks (file_hash b) ws)"
      by (simp add: file_chunks_def)
    then obtain c cs where cs: "file_chunks (file_hash b) ws = c # cs"
      by (cases "file_chunks (file_hash b) ws") auto
    then have "c \<in> set (file_chunks (file_hash b) ws)" by simp
    then have c: "c \<in> set ws" "file_hash c = file_hash b" "1 < index_all c"
      by (simp_all add: file_chunks_def)
    with assms that have "index_all c = index_all b"
      by (auto simp: same_split_def list_all_iff)
    with cs show ?thesis by (simp add: N_def)
  qed
  have look: "map_of (fold count_block ws []) F =
           (if int (length (file_chunks F ws)) mod N F = 0 then None
            else Some (N F - int (length (file_chunks F ws)) mod N F))" for F
    using N by (rule count_fold_lookup)
  show ?thesis
  proof
    assume "fold count_block ws [] = []"
    then have z: "int (length (file_chunks F ws)) mod N F = 0" for F
      using look [of F] by (simp split: if_splits)
    show "whole_files ws"
      unfolding whole_files_def list_all_iff
    proof (intro ballI impI)
      fix b assume "b \<in> set ws" "1 < index_all b"
      then have "index_all b = N (file_hash b)" by (rule N)
      with z [of "file_hash b"] show "index_all b dvd int (length (file_chunks (file_hash b) ws))"
        by (simp add: dvd_eq_mod_eq_0)
    qed
  next
    assume w: "whole_files ws"
    have "map_of (fold count_block ws []) F = None" for F
    proof (cases "file_chunks F ws")
      case Nil
      with look [of F] show ?thesis by simp
    next
      case (Cons c cs)
      then have "c \<in> set (file_chunks F ws)" by simp
      then have c: "c \<in> set ws" "file_hash c = F" "1 < index_all c"
        by (simp_all add: file_chunks_def)
      with w have "index_all c dvd int (length (file_chunks F ws))"
        by (auto simp: whole_files_def list_all_iff)
      moreover from c have "index_all c = N F" using N by auto
      ultimately show ?thesis using look [of F] by (simp add: dvd_eq_mod_eq_0)
    qed
    then have "map_of (fold count_block ws []) = Map.empty"
      by (simp add: fun_eq_iff)
    then show "fold count_block ws [] = []"
      by (simp add: map_of_empty_iff)
  qed
qed




lemma fresh_chain_linked:
  assumes "hp INITIAL_BLOCK = initial_block H" and "Blockchain_init hp None = Inr s0"
  shows "linked s0 [INITIAL_BLOCK] \<and> latest_block s0 = INITIAL_BLOCK \<and> heap s0 = hp"
  using assms
  by (auto simp: Blockchain_init_def Let_def initial_block_def py_bytes_def
      split: sum.splits)

section \<open>The order of the chain list\<close>

text \<open>
  C4: the \<open>chain\<close> property does not list the blocks oldest to newest. For a chain
  built from a fresh one by inserting the block objects \<open>as\<close> (distinct objects, no
  two block hashes equal, none empty) it returns the tip first and the genesis block
  last: the blocks in the reverse of their insertion order.
\<close>

theorem chain_list_newest_first:
  assumes "hp INITIAL_BLOCK = initial_block H"
    and "Blockchain_init hp None = Inr s0"
    and "insert_blocks H as s0 = (Inr (), s)"
    and "distinct as" and "INITIAL_BLOCK \<notin> set as"
    and "no_collision s (rev as @ [INITIAL_BLOCK])"
  shows "chain_list s = Some (Inr (rev as @ [INITIAL_BLOCK]))
       \<and> latest_block s = hd (rev as @ [INITIAL_BLOCK])"
proof -
  from fresh_chain_linked [OF assms(1,2)]
  have l0: "linked s0 [INITIAL_BLOCK]" and t0: "latest_block s0 = INITIAL_BLOCK" by blast+
  from assms(5) have "set as \<inter> set [INITIAL_BLOCK] = {}" by simp
  from insert_blocks_linked [OF assms(3) l0 t0 assms(4) this assms(6)]
  have lk: "linked s (rev as @ [INITIAL_BLOCK])"
    and tip: "latest_block s = hd (rev as @ [INITIAL_BLOCK])" by simp_all
  obtain a p where ap: "rev as @ [INITIAL_BLOCK] = a # p"
    by (cases "rev as @ [INITIAL_BLOCK]") auto
  with lk tip have "linked s (a # p)" "latest_block s = a" by simp_all
  then have "chain_list s = Some (Inr (a # p))" by (rule chain_list_linked)
  with ap tip show ?thesis by simp
qed

lemma merge_example_no_collision:
  "no_collision merge_example (rev [1, 2] @ [INITIAL_BLOCK])"
  by (simp add: no_collision_def merge_example_state chain_eval)

theorem chain_list_newest_first_witness:
  "chain_list merge_example = Some (Inr (rev [1, 2] @ [INITIAL_BLOCK]))
   \<and> latest_block merge_example = hd (rev [1, 2] @ [INITIAL_BLOCK])
   \<and> rev [1, 2] @ [INITIAL_BLOCK] = [2, 1, INITIAL_BLOCK]"
proof -
  have "distinct [1, 2 :: addr]" and "INITIAL_BLOCK \<notin> set [1, 2]"
    by (simp_all add: INITIAL_BLOCK_def)
  from chain_list_newest_first [OF merge_example_start merge_example_inserted this
      merge_example_no_collision]
  show ?thesis by simp
qed

section \<open>Inserting the same block object twice\<close>

lemma verify_walk_self_loop:
  assumes ne: "previous_block_hash (heap s a) \<noteq> Some []"
    and self: "map_of (chain_dict s) (previous_block_hash (heap s a)) = Some a"
  shows "verify_walk s a fbn = None"
proof (rule ccontr)
  assume "verify_walk s a fbn \<noteq> None"
  then obtain r where ret: "verify_walk s a fbn = Some r" by auto
  have "\<not> (s = s \<and> a = a)"
  proof (rule verify_walk.raw_induct [where P = "\<lambda>s' x fbn r. \<not> (s' = s \<and> x = a)", OF _ ret],
      goal_cases)
    case (1 f s' x fbn' r')
    show ?case
    proof
      assume "s' = s \<and> x = a"
      with 1(2) ne self have "f s a (count_block (heap s a) fbn') = Some r'"
        by (simp add: py_bytes_def)
      then have "\<not> (s = s \<and> a = a)" by (rule 1(1))
      then show False by simp
    qed
  qed
  then show False by simp
qed

lemma chain_walk_self_loop:
  assumes ne: "previous_block_hash (heap s a) \<noteq> Some []"
    and self: "map_of (chain_dict s) (previous_block_hash (heap s a)) = Some a"
  shows "chain_walk s a blocks = None"
proof (rule ccontr)
  assume "chain_walk s a blocks \<noteq> None"
  then obtain r where ret: "chain_walk s a blocks = Some r" by auto
  have "\<not> (s = s \<and> a = a)"
  proof (rule chain_walk.raw_induct [where P = "\<lambda>s' x blocks r. \<not> (s' = s \<and> x = a)", OF _ ret],
      goal_cases)
    case (1 f s' x blocks' r')
    show ?case
    proof
      assume "s' = s \<and> x = a"
      with 1(2) ne self have "f s a (blocks' @ [a]) = Some r'"
        by (simp add: py_bytes_def)
      then have "\<not> (s = s \<and> a = a)" by (rule 1(1))
      then show False by simp
    qed
  qed
  then show False by simp
qed

text \<open>Where a successful insert_block leaves the hash of the block in \<open>self.__files\<close>.\<close>

lemma files_append_Inr:
  assumes "files_append fs fh ch h = Inr fs'"
  shows "\<exists>d hs. map_of fs' fh = Some d \<and> map_of d (ContentKey ch) = Some (ListVal (hs @ [h]))"
  using assms
  by (auto simp: files_append_def files_getitem_def file_blocks_getitem_def update_conv'
      split: option.splits fval.splits)

lemma link_block_Inr_files:
  assumes "link_block H a s = (Inr u, s')"
  shows "\<exists>d hs. map_of (files s') (file_hash (heap s a)) = Some d
           \<and> map_of d (ContentKey (content_hash (heap s a))) = Some (ListVal (hs @ [block_hash (heap s' a)]))"
  using assms
  by (auto simp: link_block_def Let_def set_previous_block_hash_def
      split: option.splits sum.splits dest!: files_append_Inr)

lemma insert_block_Inr_files:
  assumes "insert_block H a s = (Inr u, s')"
  shows "\<exists>d hs. map_of (files s') (file_hash (heap s a)) = Some d
           \<and> map_of d (ContentKey (content_hash (heap s a))) = Some (ListVal (hs @ [block_hash (heap s' a)]))"
proof -
  from assms have "link_block H a s = (Inr u, s')
      \<or> link_block H a (s\<lparr>files := files_setitem (files s) (file_hash (heap s a)) IndexAllKey
            (IntVal (index_all (heap s a)))\<rparr>) = (Inr u, s')"
    by (auto simp: insert_block_def Let_def split: option.splits if_splits prod.splits fval.splits)
  then show ?thesis
    by (auto dest!: link_block_Inr_files)
qed

text \<open>insert_block on a block whose content hash is already a key of its file record.\<close>

lemma insert_block_known_content:
  assumes d: "map_of (files s) (file_hash (heap s a)) = Some d"
    and hs: "map_of d (ContentKey (content_hash (heap s a))) = Some (ListVal hs)"
    and tip: "block_hash (heap s (latest_block s)) = Some h"
  shows "insert_block H a s =
     (Inr (),
      s\<lparr>heap := (heap s)(a := set_previous_block_hash H h (heap s a)),
        chain_dict := AList.update (Some (H (payload (heap s a) @ h))) a (chain_dict s),
        files := AList.update (file_hash (heap s a))
                   (AList.update (ContentKey (content_hash (heap s a)))
                      (ListVal (hs @ [Some (H (payload (heap s a) @ h))])) d) (files s),
        latest_block := a\<rparr>)"
proof -
  from hs have "d \<noteq> []" by auto
  with d hs tip show ?thesis
    by (simp add: insert_block_def link_block_def Let_def files_append_def files_getitem_def
        file_blocks_getitem_def set_previous_block_hash_def)
qed

lemma reinsert_tip_state:
  assumes first: "insert_block H a s0 = (Inr u, s1)"
  shows "\<exists>h1 d hs. block_hash (heap s1 a) = Some h1
     \<and> map_of (chain_dict s1) (Some h1) = Some a
     \<and> map_of (files s1) (file_hash (heap s1 a)) = Some d
     \<and> map_of d (ContentKey (content_hash (heap s1 a))) = Some (ListVal hs) \<and> hs \<noteq> []
     \<and> insert_block H a s1 =
         (Inr (),
          s1\<lparr>heap := (heap s1)(a := set_previous_block_hash H h1 (heap s1 a)),
            chain_dict := AList.update (Some (H (payload (heap s1 a) @ h1))) a (chain_dict s1),
            files := AList.update (file_hash (heap s1 a))
                       (AList.update (ContentKey (content_hash (heap s1 a)))
                          (ListVal (hs @ [Some (H (payload (heap s1 a) @ h1))])) d) (files s1),
            latest_block := a\<rparr>)"
proof -
  from insert_block_Inr [OF first] obtain h where
    hp: "heap s1 = (heap s0)(a := set_previous_block_hash H h (heap s0 a))"
    and cd: "chain_dict s1 = AList.update (Some (H (payload (heap s0 a) @ h))) a (chain_dict s0)"
    and lt: "latest_block s1 = a"
    by auto
  let ?h1 = "H (payload (heap s0 a) @ h)"
  have h1: "block_hash (heap s1 a) = Some ?h1"
    by (simp add: hp set_previous_block_hash_def)
  have same: "file_hash (heap s1 a) = file_hash (heap s0 a)"
    "content_hash (heap s1 a) = content_hash (heap s0 a)"
    by (simp_all add: hp set_previous_block_hash_def)
  from insert_block_Inr_files [OF first] same obtain d hs0 where
    d: "map_of (files s1) (file_hash (heap s1 a)) = Some d"
    and b: "map_of d (ContentKey (content_hash (heap s1 a)))
        = Some (ListVal (hs0 @ [block_hash (heap s1 a)]))"
    by auto
  have look: "map_of (chain_dict s1) (Some ?h1) = Some a"
    by (simp add: cd update_conv')
  from lt h1 have tip: "block_hash (heap s1 (latest_block s1)) = Some ?h1" by simp
  from insert_block_known_content [OF d b tip, where H = H] h1 look d b
  show ?thesis by auto
qed

lemma reinsert_tip_diverges:
  assumes first: "insert_block H a s0 = (Inr u, s1)"
    and second: "insert_block H a s1 = (r, s2)"
    and ne: "block_hash (heap s1 a) \<noteq> Some []"
  shows "verify_integrity s2 = None \<and> chain_list s2 = None"
proof -
  from reinsert_tip_state [OF first] second obtain h1 where
    h1: "block_hash (heap s1 a) = Some h1"
    and look: "map_of (chain_dict s1) (Some h1) = Some a"
    and hp: "heap s2 = (heap s1)(a := set_previous_block_hash H h1 (heap s1 a))"
    and cd: "chain_dict s2 = AList.update (Some (H (payload (heap s1 a) @ h1))) a (chain_dict s1)"
    and lt: "latest_block s2 = a"
    by auto
  have prev: "previous_block_hash (heap s2 a) = Some h1"
    by (simp add: hp set_previous_block_hash_def)
  with ne h1 have 1: "previous_block_hash (heap s2 a) \<noteq> Some []" by simp
  have 2: "map_of (chain_dict s2) (previous_block_hash (heap s2 a)) = Some a"
    using look by (simp add: prev cd update_conv')
  from 1 2 have "verify_walk s2 a fbn = None" for fbn
    by (rule verify_walk_self_loop)
  moreover from 1 2 have "chain_walk s2 a blocks = None" for blocks
    by (rule chain_walk_self_loop)
  ultimately show ?thesis
    by (simp add: verify_integrity_def chain_list_def lt)
qed

lemma grown_refl: "grown v v"
  by (simp add: grown_def)

lemma get_file_blocks_loop_grown:
  assumes "list_all2 grown vs vs'"
    and "list_all (\<lambda>v. case v of IntVal _ \<Rightarrow> True | ListVal hs \<Rightarrow> h2 \<notin> set hs) vs"
    and cd: "chain_dict s' = AList.update h2 a (chain_dict s)"
    and idx: "\<And>x. index (heap s' x) = index (heap s x)"
  shows "get_file_blocks_loop s' vs' blocks = get_file_blocks_loop s vs blocks"
  using assms(1,2)
proof (induction vs vs' arbitrary: blocks rule: list_all2_induct)
  case Nil
  then show ?case by simp
next
  case (Cons v vs v' vs')
  from Cons.prems have rest: "list_all (\<lambda>v. case v of IntVal _ \<Rightarrow> True | ListVal hs \<Rightarrow> h2 \<notin> set hs) vs"
    by simp
  note IH = Cons.IH [OF rest]
  show ?case
  proof (cases v)
    case (IntVal n)
    with Cons.hyps(1) have "v' = IntVal n" by (auto simp: grown_def)
    with IntVal IH show ?thesis by simp
  next
    case (ListVal hs)
    show ?thesis
    proof (cases hs)
      case Nil
      with ListVal Cons.hyps(1) have "v' = ListVal []" by (auto simp: grown_def)
      with ListVal Nil show ?thesis by simp
    next
      case (Cons h hs1)
      with ListVal \<open>grown v v'\<close> obtain hs1' where v': "v' = ListVal (h # hs1')"
        by (auto simp: grown_def)
      from ListVal Cons Cons.prems have "h \<noteq> h2" by auto
      then have "map_of (chain_dict s') h = map_of (chain_dict s) h"
        by (simp add: cd update_conv')
      with ListVal Cons v' IH idx show ?thesis
        by (simp split: option.splits)
    qed
  qed
qed

lemma map_snd_update_grown:
  assumes "map_of d k = Some v" and "grown v v'"
  shows "list_all2 grown (map snd d) (map snd (AList.update k v' d))"
  using assms(1)
proof (induction d)
  case Nil
  then show ?case by simp
next
  case (Cons p d)
  have refl: "list_all2 grown (map snd d) (map snd d)"
    by (simp add: list_all2_refl grown_refl)
  show ?case
  proof (cases "fst p = k")
    case True
    with Cons.prems have "snd p = v" by (cases p) simp
    with True assms(2) refl show ?thesis by (cases p) simp
  next
    case False
    with Cons.prems have "map_of d k = Some v" by (cases p) (simp split: if_splits)
    then have "list_all2 grown (map snd d) (map snd (AList.update k v' d))"
      by (rule Cons.IH)
    with False show ?thesis by (cases p) (simp add: grown_refl)
  qed
qed

lemma length_update_present:
  "map_of d k = Some v \<Longrightarrow> length (AList.update k v' d) = length d"
  by (induction d) (auto split: if_splits)

text \<open>
  C8 (as amended): when a block object has been inserted and is the tip, inserting the
  same object again raises nothing, and \<open>contains_file\<close> and \<open>get_file_blocks\<close> return
  for every file hash what they returned after the first insert, provided the hash the
  block gets on re-linking was not in use before.
\<close>

theorem reinsert_tip_tolerated:
  assumes first: "insert_block H a s0 = (Inr (), s1)"
    and second: "insert_block H a s1 = (r, s2)"
    and fresh: "hash_unused (block_hash (heap s2 a)) s1"
  shows "r = Inr ()
       \<and> fst (contains_file fh s2) = fst (contains_file fh s1)
       \<and> get_file_blocks fh s2 = get_file_blocks fh s1"
proof -
  from reinsert_tip_state [OF first] second obtain h1 d hs where
    d: "map_of (files s1) (file_hash (heap s1 a)) = Some d"
    and b: "map_of d (ContentKey (content_hash (heap s1 a))) = Some (ListVal hs)" and ne: "hs \<noteq> []"
    and r: "r = Inr ()"
    and hp: "heap s2 = (heap s1)(a := set_previous_block_hash H h1 (heap s1 a))"
    and cd: "chain_dict s2 = AList.update (Some (H (payload (heap s1 a) @ h1))) a (chain_dict s1)"
    and fs: "files s2 = AList.update (file_hash (heap s1 a))
                       (AList.update (ContentKey (content_hash (heap s1 a)))
                          (ListVal (hs @ [Some (H (payload (heap s1 a) @ h1))])) d) (files s1)"
    by auto
  let ?h2 = "Some (H (payload (heap s1 a) @ h1))"
  let ?d' = "AList.update (ContentKey (content_hash (heap s1 a))) (ListVal (hs @ [?h2])) d"
  have h2: "block_hash (heap s2 a) = ?h2"
    by (simp add: hp set_previous_block_hash_def)
  have idx: "index (heap s2 x) = index (heap s1 x)" for x
    by (simp add: hp set_previous_block_hash_def)
  have g: "grown (ListVal hs) (ListVal (hs @ [?h2]))"
    using ne by (auto simp: grown_def)
  have len: "length ?d' = length d"
    using b by (rule length_update_present)
  have ia: "map_of ?d' IndexAllKey = map_of d IndexAllKey"
    by (simp add: update_conv')
  have cf: "fst (contains_file fh s2) = fst (contains_file fh s1)"
  proof (cases "fh = file_hash (heap s1 a)")
    case True
    with d fs len ia show ?thesis
      by (simp add: contains_file_def file_blocks_getitem_def update_conv'
          split: option.splits fval.splits)
  next
    case False
    then show ?thesis
      by (simp add: contains_file_def fs update_conv' split: option.splits prod.splits fval.splits)
  qed
  define vs where "vs = map snd (case map_of (files s1) fh of None \<Rightarrow> [] | Some fb \<Rightarrow> fb)"
  define vs' where "vs' = map snd (case map_of (files s2) fh of None \<Rightarrow> [] | Some fb \<Rightarrow> fb)"
  have rel: "list_all2 grown vs vs'"
  proof (cases "fh = file_hash (heap s1 a)")
    case True
    with d fs have "vs = map snd d" "vs' = map snd ?d'"
      by (simp_all add: vs_def vs'_def update_conv')
    with map_snd_update_grown [OF b g] show ?thesis by simp
  next
    case False
    then have "vs' = vs"
      by (simp add: vs_def vs'_def fs update_conv')
    then show ?thesis
      by (simp add: list_all2_refl grown_refl)
  qed
  have unused: "list_all (\<lambda>v. case v of IntVal _ \<Rightarrow> True | ListVal hs \<Rightarrow> ?h2 \<notin> set hs) vs"
  proof (cases "map_of (files s1) fh")
    case None
    then show ?thesis by (simp add: vs_def)
  next
    case (Some fb)
    then have "(fh, fb) \<in> set (files s1)" by (rule map_of_SomeD)
    with fresh h2 have "list_all (\<lambda>(k, v). case v of IntVal _ \<Rightarrow> True | ListVal hs \<Rightarrow> ?h2 \<notin> set hs) fb"
      by (auto simp: hash_unused_def list_all_iff)
    with Some show ?thesis
      by (auto simp: vs_def list_all_iff)
  qed
  have "get_file_blocks_loop s2 vs' [] = get_file_blocks_loop s1 vs []"
    using rel unused cd idx by (rule get_file_blocks_loop_grown)
  then have "get_file_blocks fh s2 = get_file_blocks fh s1"
    by (simp add: get_file_blocks_def vs_def vs'_def)
  with r cf show ?thesis by simp
qed

lemma insert_blocks_single:
  "insert_blocks H [a] s = (Inr u, s') \<Longrightarrow> insert_block H a s = (Inr u, s')"
  by (auto split: prod.splits sum.splits)

lemma once_example_first:
  "insert_block ideal_hash 1
     (alloc_all 1 [new_block ideal_hash [0x46] 1 [0x68, 0x69] 0] (new_chain ideal_hash))
   = (Inr (), once_example)"
  using once_example_inserted by (rule insert_blocks_single)

lemma twice_example_second:
  "insert_block ideal_hash 1 once_example
   = (fst (insert_block ideal_hash 1 once_example), twice_example)"
  by (simp add: twice_example_def)

lemma twice_example_unused:
  "hash_unused (block_hash (heap twice_example 1)) once_example"
  by (simp add: hash_unused_def twice_example_def once_example_state chain_eval)

lemma once_example_results:
  "fst (contains_file [0x46] once_example) = Inr True"
  "get_file_blocks [0x46] once_example = Inr [1]"
  "verify_integrity once_example = Some True"
  by (simp_all add: once_example_state chain_eval contains_file_def get_file_blocks_def
      py_list_insert_def verify_integrity_def verify_walk.simps count_tip_def count_block_def)

theorem reinsert_tip_tolerated_witness:
  "hash_unused (block_hash (heap twice_example 1)) once_example
   \<and> fst (insert_block ideal_hash 1 once_example) = Inr ()
   \<and> fst (contains_file [0x46] twice_example) = Inr True
   \<and> get_file_blocks [0x46] twice_example = Inr [1]"
  using reinsert_tip_tolerated [OF once_example_first twice_example_second twice_example_unused,
      of "[0x46]"]
    twice_example_unused once_example_results
  by simp

text \<open>
  The claim as stated fails for \<open>verify_integrity\<close>: the second insert links the object to
  its own former hash, under which \<open>self.__chain\<close> still holds it, so the walk (and the
  \<open>chain\<close> property) never leaves the block and does not return.
\<close>

theorem reinsert_tip_verify_diverges:
  "verify_integrity once_example = Some True
   \<and> fst (insert_block ideal_hash 1 once_example) = Inr ()
   \<and> verify_integrity twice_example = None
   \<and> chain_list twice_example = None"
proof -
  have "block_hash (heap once_example 1) \<noteq> Some []"
    by (simp add: once_example_state chain_eval)
  from reinsert_tip_diverges [OF once_example_first twice_example_second this]
  have "verify_integrity twice_example = None \<and> chain_list twice_example = None" .
  moreover have "fst (insert_block ideal_hash 1 once_example) = Inr ()"
    by (simp add: once_example_state chain_eval)
  ultimately show ?thesis
    using once_example_results by simp
qed

section \<open>Buckets and the loops of merge_blocks\<close>

text \<open>
  What \<open>append\<close> and \<open>remove\<close> do to the buckets of \<open>self.__files\<close>, and one round
  of each of the first two loops of \<open>merge_blocks\<close>.
\<close>

lemma bucket_files_setitem_index:
  "bucket (files_setitem fs fh IndexAllKey v) fh' ch = bucket fs fh' ch"
  by (auto simp: bucket_def files_setitem_def files_getitem_def update_conv'
      split: option.splits)

lemma buckets_ok_files_setitem_index:
  "buckets_ok (files_setitem fs fh IndexAllKey v) = buckets_ok fs"
  by (simp add: buckets_ok_def bucket_files_setitem_index)

lemma files_append_ok:
  assumes "buckets_ok fs"
  shows "\<exists>fs'. files_append fs fh ch h = Inr fs' \<and> buckets_ok fs'
           \<and> (\<forall>fh' ch'. bucket fs' fh' ch' =
                 (if fh' = fh \<and> ch' = ch then Some (ListVal (bucket_list fs fh ch @ [h]))
                  else bucket fs fh' ch'))"
proof -
  obtain d fs1 where g: "files_getitem fs fh = (d, fs1)"
    by (cases "files_getitem fs fh")
  obtain v d1 where b: "file_blocks_getitem d (ContentKey ch) = (v, d1)"
    by (cases "file_blocks_getitem d (ContentKey ch)")
  from g have d: "d = (case map_of fs fh of None \<Rightarrow> [] | Some d \<Rightarrow> d)"
    by (auto simp: files_getitem_def split: option.splits)
  from b have v: "v = (case map_of d (ContentKey ch) of None \<Rightarrow> ListVal [] | Some v \<Rightarrow> v)"
    by (auto simp: file_blocks_getitem_def split: option.splits)
  have bd: "bucket fs fh ch = map_of d (ContentKey ch)"
    by (simp add: bucket_def d split: option.splits)
  have lv: "v = ListVal (bucket_list fs fh ch)"
  proof (cases "map_of d (ContentKey ch)")
    case None
    with v bd show ?thesis by (simp add: bucket_list_def)
  next
    case (Some w)
    with bd have "bucket fs fh ch = Some w" by simp
    moreover from this assms obtain hs where "w = ListVal hs"
      unfolding buckets_ok_def by blast
    ultimately show ?thesis using v Some by (simp add: bucket_list_def)
  qed
  let ?fs' = "AList.update fh (AList.update (ContentKey ch) (ListVal (bucket_list fs fh ch @ [h])) d1) fs1"
  from g b lv have r: "files_append fs fh ch h = Inr ?fs'"
    by (simp add: files_append_def)
  have m1: "map_of fs1 fh' = map_of fs fh'" if "fh' \<noteq> fh" for fh'
    using g that by (auto simp: files_getitem_def update_conv' split: option.splits)
  have m2: "map_of d1 k = map_of d k" if "k \<noteq> ContentKey ch" for k
    using b that by (auto simp: file_blocks_getitem_def update_conv' split: option.splits)
  have bk: "bucket ?fs' fh' ch' =
      (if fh' = fh \<and> ch' = ch then Some (ListVal (bucket_list fs fh ch @ [h]))
       else bucket fs fh' ch')" for fh' ch'
    using m1 [of fh'] m2 [of "ContentKey ch'"]
    by (auto simp: bucket_def update_conv' d split: option.splits)
  have "buckets_ok ?fs'"
    using assms by (auto simp: buckets_ok_def bk split: if_splits)
  with r bk show ?thesis by blast
qed

lemma files_remove_ok:
  assumes "buckets_ok fs" and "bucket fs fh ch = Some (ListVal hs)" and "h \<in> set hs"
  shows "\<exists>fs'. files_remove fs fh ch h = (Inr (), fs') \<and> buckets_ok fs'
           \<and> (\<forall>fh' ch'. bucket fs' fh' ch' =
                 (if fh' = fh \<and> ch' = ch then Some (ListVal (remove1 h hs))
                  else bucket fs fh' ch'))"
proof -
  from assms(2) obtain d where d: "map_of fs fh = Some d"
    and k: "map_of d (ContentKey ch) = Some (ListVal hs)"
    by (auto simp: bucket_def split: option.splits)
  let ?fs' = "AList.update fh (AList.update (ContentKey ch) (ListVal (remove1 h hs)) d) fs"
  from d k assms(3) have r: "files_remove fs fh ch h = (Inr (), ?fs')"
    by (simp add: files_remove_def files_getitem_def file_blocks_getitem_def)
  have bk: "bucket ?fs' fh' ch' =
      (if fh' = fh \<and> ch' = ch then Some (ListVal (remove1 h hs))
       else bucket fs fh' ch')" for fh' ch'
    using d by (auto simp: bucket_def update_conv' split: option.splits)
  have "buckets_ok ?fs'"
    using assms(1) by (auto simp: buckets_ok_def bk split: if_splits)
  with r bk show ?thesis by blast
qed

lemma link_block_buckets:
  assumes "link_block H a s = (Inr u, s')" and "buckets_ok (files s)"
  shows "buckets_ok (files s')
       \<and> block_hash (heap s' a) \<in> set (bucket_list (files s') (file_hash (heap s a)) (content_hash (heap s a)))"
proof -
  from assms(1) obtain p where p: "block_hash (heap s (latest_block s)) = Some p"
    by (auto simp: link_block_def split: option.splits)
  let ?nb = "set_previous_block_hash H p (heap s a)"
  from files_append_ok [OF assms(2), of "file_hash ?nb" "content_hash ?nb" "block_hash ?nb"]
  obtain fs' where fa: "files_append (files s) (file_hash ?nb) (content_hash ?nb) (block_hash ?nb) = Inr fs'"
    and ok: "buckets_ok fs'"
    and bk: "bucket fs' (file_hash ?nb) (content_hash ?nb)
        = Some (ListVal (bucket_list (files s) (file_hash ?nb) (content_hash ?nb) @ [block_hash ?nb]))"
    by auto
  from assms(1) p fa have s': "files s' = fs'" "heap s' a = ?nb"
    by (auto simp: link_block_def Let_def)
  have same: "file_hash ?nb = file_hash (heap s a)" "content_hash ?nb = content_hash (heap s a)"
    by (simp_all add: set_previous_block_hash_def)
  from bk show ?thesis
    by (simp add: s' ok bucket_list_def same [symmetric])
qed

lemma insert_block_buckets:
  assumes "insert_block H a s = (Inr u, s')" and "buckets_ok (files s)"
  shows "buckets_ok (files s')
       \<and> block_hash (heap s' a) \<in> set (bucket_list (files s') (file_hash (heap s a)) (content_hash (heap s a)))"
proof -
  let ?s1 = "s\<lparr>files := files_setitem (files s) (file_hash (heap s a)) IndexAllKey
            (IntVal (index_all (heap s a)))\<rparr>"
  from assms(1) have "link_block H a s = (Inr u, s') \<or> link_block H a ?s1 = (Inr u, s')"
    by (auto simp: insert_block_def Let_def split: option.splits if_splits prod.splits fval.splits)
  then show ?thesis
  proof
    assume "link_block H a s = (Inr u, s')"
    then show ?thesis using assms(2) by (rule link_block_buckets)
  next
    assume l: "link_block H a ?s1 = (Inr u, s')"
    have "buckets_ok (files ?s1)"
      using assms(2) by (simp add: buckets_ok_files_setitem_index)
    from link_block_buckets [OF l this] show ?thesis by simp
  qed
qed

lemma merge_scan_new:
  assumes "map_of (chain_dict s) (block_hash (heap s a)) = None"
    and "files_append (files s) (file_hash (heap s a)) (content_hash (heap s a))
           (block_hash (heap s a)) = Inr fs"
  shows "merge_scan (a # as) s added start =
     merge_scan as
       (s\<lparr>chain_dict := AList.update (block_hash (heap s a)) a (chain_dict s),
          files := files_setitem fs (file_hash (heap s a)) IndexAllKey
                     (IntVal (index_all (heap s a)))\<rparr>)
       (added @ [a])
       (case map_of (AList.update (block_hash (heap s a)) a (chain_dict s))
               (previous_block_hash (heap s a)) of
          None \<Rightarrow> start
        | Some c \<Rightarrow> Some c)"
  using assms by (simp add: Let_def)

lemma merge_unwind_stop:
  "block_hash (heap s cur) = block_hash (heap s start)
   \<Longrightarrow> merge_unwind s cur start conflicted = (Inr conflicted, s)"
  by (simp add: merge_unwind.simps)

lemma merge_unwind_step:
  assumes "block_hash (heap s cur) \<noteq> block_hash (heap s start)"
    and "map_of (chain_dict s) (block_hash (heap s cur)) \<noteq> None"
    and "files_remove (files s) (file_hash (heap s cur)) (content_hash (heap s cur))
           (block_hash (heap s cur)) = (Inr (), fs)"
    and "map_of (AList.delete (block_hash (heap s cur)) (chain_dict s))
           (previous_block_hash (heap s cur)) = Some nxt"
  shows "merge_unwind s cur start conflicted =
     merge_unwind
       (s\<lparr>chain_dict := AList.delete (block_hash (heap s cur)) (chain_dict s), files := fs\<rparr>)
       nxt start (conflicted @ [cur])"
  using assms by (subst merge_unwind.simps) (auto simp: Let_def)

lemma bucket_list_files_setitem_index:
  "bucket_list (files_setitem fs fh IndexAllKey v) fh' ch = bucket_list fs fh' ch"
  by (simp add: bucket_list_def bucket_files_setitem_index)

lemma files_append_keeps:
  assumes "buckets_ok fs" and "files_append fs fh ch h = Inr fs'"
    and "x \<in> set (bucket_list fs fh' ch')"
  shows "buckets_ok fs' \<and> x \<in> set (bucket_list fs' fh' ch')"
proof -
  from files_append_ok [OF assms(1), of fh ch h] assms(2)
  have ok: "buckets_ok fs'"
    and bk: "bucket fs' fh' ch' =
                 (if fh' = fh \<and> ch' = ch then Some (ListVal (bucket_list fs fh ch @ [h]))
                  else bucket fs fh' ch')"
    by auto
  from bk assms(3) have "x \<in> set (bucket_list fs' fh' ch')"
    by (auto simp: bucket_list_def split: if_splits)
  with ok show ?thesis by simp
qed

section \<open>Built chains are kept\<close>

text \<open>
  Every chain that \<open>built\<close> describes is \<open>kept\<close>: \<open>insert_block\<close> and
  \<open>merge_blocks\<close> preserve the linked path from the tip to the genesis block together
  with the bookkeeping in the two dictionaries that the next call relies on.
\<close>

lemma list_all_update_entries:
  assumes "list_all P al" and "P (k, v)"
  shows "list_all P (AList.update k v al)"
  using assms by (induction al) auto

lemma set_delete_entries:
  "set (AList.delete k al) = {e \<in> set al. fst e \<noteq> k}"
  by (induction al) auto

lemma files_append_bucket_keeps:
  assumes "buckets_ok fs" and "files_append fs fh ch h = Inr fs'"
    and "bucket fs fh' ch' \<noteq> None"
  shows "bucket fs' fh' ch' \<noteq> None"
proof -
  from files_append_ok [OF assms(1), of fh ch h] assms(2)
  have "bucket fs' fh' ch' =
                 (if fh' = fh \<and> ch' = ch then Some (ListVal (bucket_list fs fh ch @ [h]))
                  else bucket fs fh' ch')"
    by auto
  with assms(3) show ?thesis by (simp split: if_splits)
qed

lemma link_block_files:
  assumes "link_block H a s = (Inr u, s')"
  shows "\<exists>h. files_append (files s) (file_hash (heap s a)) (content_hash (heap s a)) h
            = Inr (files s')"
  using assms
  by (auto simp: link_block_def Let_def set_previous_block_hash_def
      split: option.splits sum.splits)

lemma insert_block_files:
  assumes "insert_block H a s = (Inr u, s')" and "buckets_ok (files s)"
  shows "\<exists>fs h. buckets_ok fs
           \<and> (\<forall>fh ch. bucket fs fh ch = bucket (files s) fh ch)
           \<and> files_append fs (file_hash (heap s a)) (content_hash (heap s a)) h = Inr (files s')"
proof -
  let ?s1 = "s\<lparr>files := files_setitem (files s) (file_hash (heap s a)) IndexAllKey
            (IntVal (index_all (heap s a)))\<rparr>"
  from assms(1) have "link_block H a s = (Inr u, s') \<or> link_block H a ?s1 = (Inr u, s')"
    by (auto simp: insert_block_def Let_def split: option.splits if_splits prod.splits fval.splits)
  then show ?thesis
  proof
    assume "link_block H a s = (Inr u, s')"
    from link_block_files [OF this] assms(2) show ?thesis by blast
  next
    assume "link_block H a ?s1 = (Inr u, s')"
    from link_block_files [OF this] obtain h where
      "files_append (files ?s1) (file_hash (heap s a)) (content_hash (heap s a)) h = Inr (files s')"
      by auto
    moreover have "buckets_ok (files ?s1)"
      using assms(2) by (simp add: buckets_ok_files_setitem_index)
    moreover have "\<forall>fh ch. bucket (files ?s1) fh ch = bucket (files s) fh ch"
      by (simp add: bucket_files_setitem_index)
    ultimately show ?thesis by blast
  qed
qed

lemma insert_block_keeps:
  assumes ins: "insert_block H a s = (Inr u, s')" and ok: "buckets_ok (files s)"
  shows "x \<in> set (bucket_list (files s) fh ch) \<Longrightarrow> x \<in> set (bucket_list (files s') fh ch)"
    and "bucket (files s) fh ch \<noteq> None \<Longrightarrow> bucket (files s') fh ch \<noteq> None"
proof -
  from insert_block_files [OF ins ok] obtain fs h where
    fs: "buckets_ok fs" "\<forall>fh ch. bucket fs fh ch = bucket (files s) fh ch"
    and ap: "files_append fs (file_hash (heap s a)) (content_hash (heap s a)) h = Inr (files s')"
    by blast
  from fs(2) have bl: "bucket_list fs fh ch = bucket_list (files s) fh ch"
    by (simp add: bucket_list_def)
  show "x \<in> set (bucket_list (files s') fh ch)" if "x \<in> set (bucket_list (files s) fh ch)"
    using files_append_keeps [OF fs(1) ap, of x fh ch] that bl by simp
  show "bucket (files s') fh ch \<noteq> None" if "bucket (files s) fh ch \<noteq> None"
    using files_append_bucket_keeps [OF fs(1) ap, of fh ch] that fs(2) by simp
qed

lemma kept_insert_block:
  assumes k: "kept s p" and fresh: "a \<notin> set p"
    and ins: "insert_block H a s = (Inr u, s')"
    and nc: "no_collision s' (a # p)"
  shows "kept s' (a # p)"
proof -
  from k have lk: "linked s p" and tip: "latest_block s = hd p" and dist: "distinct p"
    and keys: "list_all (\<lambda>(k, a). a \<in> set p \<and> k = block_hash (heap s a)) (chain_dict s)"
    and ok: "buckets_ok (files s)" and reg: "list_all (registered s) p"
    by (simp_all add: kept_def)
  from lk obtain t q where p: "p = t # q" by (cases p) auto
  from insert_block_linked [OF ins lk [unfolded p] _ _ nc [unfolded p]] tip fresh p
  have lk': "linked s' (a # p)" and tip': "latest_block s' = a" by simp_all
  from insert_block_Inr [OF ins] obtain h where
    hp: "heap s' = (heap s)(a := set_previous_block_hash H h (heap s a))"
    and cd: "chain_dict s' = AList.update (Some (H (payload (heap s a) @ h))) a (chain_dict s)"
    by auto
  have same: "heap s' x = heap s x" if "x \<in> set p" for x
    using that fresh by (auto simp: hp)
  have ha: "block_hash (heap s' a) = Some (H (payload (heap s a) @ h))"
    by (simp add: hp set_previous_block_hash_def)
  have fc: "file_hash (heap s' a) = file_hash (heap s a)"
    "content_hash (heap s' a) = content_hash (heap s a)"
    by (simp_all add: hp set_previous_block_hash_def)
  have "list_all (\<lambda>(k, x). x \<in> set (a # p) \<and> k = block_hash (heap s' x)) (chain_dict s)"
    using keys same by (auto simp: list_all_iff)
  then have keys': "list_all (\<lambda>(k, x). x \<in> set (a # p) \<and> k = block_hash (heap s' x)) (chain_dict s')"
    unfolding cd by (rule list_all_update_entries) (simp add: ha)
  from insert_block_buckets [OF ins ok] fc
  have ok': "buckets_ok (files s')" and ra: "registered s' a"
    by (simp_all add: registered_def)
  have "registered s' x" if "x \<in> set p" for x
  proof -
    from reg that have "registered s x" by (simp add: list_all_iff)
    then show ?thesis
      using insert_block_keeps(1) [OF ins ok] same [OF that]
      by (simp add: registered_def)
  qed
  with ra have reg': "list_all (registered s') (a # p)"
    by (simp add: list_all_iff)
  from lk' tip' dist fresh nc keys' ok' reg' show ?thesis
    by (simp add: kept_def)
qed

lemma merge_reinsert_heap_other:
  "merge_reinsert H as s added = (r, s') \<Longrightarrow> x \<notin> set as \<Longrightarrow> heap s' x = heap s x"
proof (induction as arbitrary: s added)
  case Nil
  then show ?case by simp
next
  case (Cons a as)
  obtain r1 s1 where step: "insert_block H a s = (r1, s1)"
    by (cases "insert_block H a s")
  from Cons.prems(2) have xa: "x \<noteq> a" and xas: "x \<notin> set as" by simp_all
  from step xa have h1: "heap s1 x = heap s x"
    by (rule insert_block_heap_other)
  show ?case
  proof (cases r1)
    case (Inl e)
    with Cons.prems(1) step h1 show ?thesis by simp
  next
    case (Inr u)
    with Cons.prems(1) step have "merge_reinsert H as s1 (added @ [a]) = (r, s')" by simp
    then have "heap s' x = heap s1 x" using xas by (rule Cons.IH)
    with h1 show ?thesis by simp
  qed
qed

text \<open>
  The third loop of \<open>merge_blocks\<close> on blocks whose content hash is a key of their file
  record: every \<open>insert_block\<close> returns.
\<close>

lemma kept_reinsert:
  assumes "kept s p" and "distinct as" and "set as \<inter> set p = {}"
    and "list_all (\<lambda>a. bucket (files s) (file_hash (heap s a)) (content_hash (heap s a)) \<noteq> None) as"
    and "block_hash (heap s (latest_block s)) \<noteq> None"
    and "merge_reinsert H as s added = (r, s')"
    and "no_collision s' (rev as @ p)"
  shows "r = Inr (added @ as) \<and> kept s' (rev as @ p)"
  using assms
proof (induction as arbitrary: s p added)
  case Nil
  then show ?case by simp
next
  case (Cons a as)
  from Cons.prems(1) have ok: "buckets_ok (files s)" by (simp add: kept_def)
  from Cons.prems(4) obtain v where
    v: "bucket (files s) (file_hash (heap s a)) (content_hash (heap s a)) = Some v"
    by auto
  with ok obtain hs where "v = ListVal hs"
    unfolding buckets_ok_def by blast
  with v obtain d where d: "map_of (files s) (file_hash (heap s a)) = Some d"
    and hs: "map_of d (ContentKey (content_hash (heap s a))) = Some (ListVal hs)"
    by (auto simp: bucket_def split: option.splits)
  from Cons.prems(5) obtain h where tip: "block_hash (heap s (latest_block s)) = Some h"
    by auto
  from insert_block_known_content [OF d hs tip, where H = H]
  obtain s1 where step: "insert_block H a s = (Inr (), s1)"
    and hp1: "heap s1 = (heap s)(a := set_previous_block_hash H h (heap s a))"
    and lt1: "latest_block s1 = a"
    by simp
  from Cons.prems(6) step have rest: "merge_reinsert H as s1 (added @ [a]) = (r, s')"
    by simp
  from Cons.prems(2) have a_as: "a \<notin> set as" and dist: "distinct as" by simp_all
  from Cons.prems(3) have a_p: "a \<notin> set p" and as_p: "set as \<inter> set (a # p) = {}"
    using a_as by auto
  have "heap s1 x = heap s' x" if "x \<in> set (a # p)" for x
  proof -
    from that as_p have "x \<notin> set as" by auto
    with rest show ?thesis by (rule merge_reinsert_heap_other [symmetric])
  qed
  moreover from Cons.prems(7) have "no_collision s' (a # p)"
    by (auto simp: no_collision_def)
  ultimately have nc1: "no_collision s1 (a # p)"
    by (rule no_collision_cong [rotated])
  from kept_insert_block [OF Cons.prems(1) a_p step nc1]
  have k1: "kept s1 (a # p)" .
  have b1: "list_all (\<lambda>x. bucket (files s1) (file_hash (heap s1 x)) (content_hash (heap s1 x)) \<noteq> None) as"
    unfolding list_all_iff
  proof
    fix x assume x: "x \<in> set as"
    with a_as have "heap s1 x = heap s x" by (auto simp: hp1)
    moreover from Cons.prems(4) x
    have "bucket (files s) (file_hash (heap s x)) (content_hash (heap s x)) \<noteq> None"
      by (simp add: list_all_iff)
    then have "bucket (files s1) (file_hash (heap s x)) (content_hash (heap s x)) \<noteq> None"
      by (rule insert_block_keeps(2) [OF step ok])
    ultimately show "bucket (files s1) (file_hash (heap s1 x)) (content_hash (heap s1 x)) \<noteq> None"
      by simp
  qed
  have t1: "block_hash (heap s1 (latest_block s1)) \<noteq> None"
    by (simp add: lt1 hp1 set_previous_block_hash_def)
  from Cons.prems(7) have "no_collision s' (rev as @ a # p)" by simp
  from Cons.IH [OF k1 dist as_p b1 t1 rest this]
  show ?case by simp
qed

text \<open>A linked path is a path that follows, and back.\<close>

lemma linked_follows:
  "linked s (t @ f # r) \<Longrightarrow> follows s t f"
proof (induction t)
  case Nil
  then show ?case by simp
next
  case (Cons a t)
  then show ?case by (cases t) auto
qed

lemma linked_suffix:
  "linked s (t @ f # r) \<Longrightarrow> linked s (f # r)"
proof (induction t)
  case Nil
  then show ?case by simp
next
  case (Cons a t)
  then show ?case by (cases t) auto
qed

lemma linked_prefix:
  assumes "linked s (f # r)" and "follows s t f"
    and "list_all (\<lambda>a. map_of (chain_dict s) (block_hash (heap s a)) = Some a) t"
    and "list_all (\<lambda>a. block_hash (heap s a) \<noteq> Some []) (t @ [f])"
  shows "linked s (t @ f # r)"
  using assms(2-4)
proof (induction t)
  case Nil
  with assms(1) show ?case by simp
next
  case (Cons a t)
  then have "linked s (t @ f # r)" by simp
  with Cons.prems show ?case by (cases t) auto
qed

lemma follows_cong:
  assumes "follows s t f" and "\<And>x. x \<in> set (t @ [f]) \<Longrightarrow> heap s' x = heap s x"
  shows "follows s' t f"
  using assms
proof (induction t)
  case Nil
  then show ?case by simp
next
  case (Cons a t)
  then show ?case by (cases t) auto
qed

lemma set_update_entries:
  "set (AList.update k v al) \<subseteq> insert (k, v) (set al)"
  by (induction al) auto

text \<open>
  The first loop of \<open>merge_blocks\<close> on blocks that are all new: \<open>xs\<close> is the reversed
  list, a path that follows down to the block \<open>f\<close> of the chain.
\<close>

lemma merge_scan_fresh:
  assumes ok: "buckets_ok (files s)"
    and dist: "distinct (map (\<lambda>a. block_hash (heap s a)) xs)"
    and new: "list_all (\<lambda>a. map_of (chain_dict s) (block_hash (heap s a)) = None) xs"
    and fl: "follows s xs f"
    and f: "map_of (chain_dict s) (block_hash (heap s f)) = Some f"
    and st: "xs = [] \<longrightarrow> start = Some f"
  shows "\<exists>s1. merge_scan xs s added start = (Inr (added @ xs, Some f), s1)
      \<and> heap s1 = heap s \<and> latest_block s1 = latest_block s \<and> buckets_ok (files s1)
      \<and> (\<forall>a\<in>set xs. map_of (chain_dict s1) (block_hash (heap s a)) = Some a)
      \<and> (\<forall>k. k \<notin> (\<lambda>a. block_hash (heap s a)) ` set xs
              \<longrightarrow> map_of (chain_dict s1) k = map_of (chain_dict s) k)
      \<and> set (chain_dict s1) \<subseteq> set (chain_dict s) \<union> (\<lambda>a. (block_hash (heap s a), a)) ` set xs
      \<and> (\<forall>h fh ch. h \<in> set (bucket_list (files s) fh ch)
              \<longrightarrow> h \<in> set (bucket_list (files s1) fh ch))
      \<and> (\<forall>fh ch. bucket (files s) fh ch \<noteq> None \<longrightarrow> bucket (files s1) fh ch \<noteq> None)
      \<and> (\<forall>a\<in>set xs. block_hash (heap s a)
              \<in> set (bucket_list (files s1) (file_hash (heap s a)) (content_hash (heap s a))))"
  using assms
proof (induction xs arbitrary: s added start)
  case Nil
  then show ?case by simp
next
  case (Cons x xs)
  let ?hx = "block_hash (heap s x)"
  let ?fh = "file_hash (heap s x)"
  let ?ch = "content_hash (heap s x)"
  let ?cd = "AList.update ?hx x (chain_dict s)"
  from Cons.prems(3) have nx: "map_of (chain_dict s) ?hx = None" by simp
  from files_append_ok [OF Cons.prems(1), of ?fh ?ch ?hx] obtain fs where
    ap: "files_append (files s) ?fh ?ch ?hx = Inr fs" and okf: "buckets_ok fs"
    and bk: "\<forall>fh' ch'. bucket fs fh' ch' =
                 (if fh' = ?fh \<and> ch' = ?ch then Some (ListVal (bucket_list (files s) ?fh ?ch @ [?hx]))
                  else bucket (files s) fh' ch')"
    by blast
  let ?s2 = "s\<lparr>chain_dict := ?cd,
          files := files_setitem fs ?fh IndexAllKey (IntVal (index_all (heap s x)))\<rparr>"
  let ?start = "case map_of ?cd (previous_block_hash (heap s x)) of
          None \<Rightarrow> start
        | Some c \<Rightarrow> Some c"
  have eq: "merge_scan (x # xs) s added start = merge_scan xs ?s2 (added @ [x]) ?start"
    using nx ap by (rule merge_scan_new)
  have ok2: "buckets_ok (files ?s2)"
    using okf by (simp add: buckets_ok_files_setitem_index)
  have dist2: "distinct (map (\<lambda>a. block_hash (heap ?s2 a)) xs)"
    using Cons.prems(2) by simp
  have hne: "block_hash (heap s a) \<noteq> ?hx" if "a \<in> set xs" for a
    using Cons.prems(2) that by (auto simp: image_iff)
  have new2: "list_all (\<lambda>a. map_of (chain_dict ?s2) (block_hash (heap ?s2 a)) = None) xs"
    using Cons.prems(3) hne by (auto simp: list_all_iff update_conv')
  from Cons.prems(4) have "follows s xs f" by simp
  then have fl2: "follows ?s2 xs f"
    by (rule follows_cong) simp
  from nx Cons.prems(5) have fne: "block_hash (heap s f) \<noteq> ?hx" by auto
  with Cons.prems(5) have f2: "map_of (chain_dict ?s2) (block_hash (heap ?s2 f)) = Some f"
    by (simp add: update_conv')
  have st2: "xs = [] \<longrightarrow> ?start = Some f"
  proof
    assume "xs = []"
    with Cons.prems(4) have "previous_block_hash (heap s x) = block_hash (heap s f)" by simp
    with f2 show "?start = Some f" by simp
  qed
  from Cons.IH [OF ok2 dist2 new2 fl2 f2 st2, of "added @ [x]"] obtain s1 where
    r: "merge_scan xs ?s2 (added @ [x]) ?start = (Inr ((added @ [x]) @ xs, Some f), s1)"
    and h1: "heap s1 = heap s" and l1: "latest_block s1 = latest_block s"
    and ok1: "buckets_ok (files s1)"
    and in1: "\<forall>a\<in>set xs. map_of (chain_dict s1) (block_hash (heap s a)) = Some a"
    and out1: "\<forall>k. k \<notin> (\<lambda>a. block_hash (heap s a)) ` set xs
              \<longrightarrow> map_of (chain_dict s1) k = map_of ?cd k"
    and sub1: "set (chain_dict s1) \<subseteq> set ?cd \<union> (\<lambda>a. (block_hash (heap s a), a)) ` set xs"
    and keep1: "\<forall>h fh ch. h \<in> set (bucket_list (files ?s2) fh ch)
              \<longrightarrow> h \<in> set (bucket_list (files s1) fh ch)"
    and key1: "\<forall>fh ch. bucket (files ?s2) fh ch \<noteq> None \<longrightarrow> bucket (files s1) fh ch \<noteq> None"
    and reg1: "\<forall>a\<in>set xs. block_hash (heap s a)
              \<in> set (bucket_list (files s1) (file_hash (heap s a)) (content_hash (heap s a)))"
    by auto
  have hx_out: "?hx \<notin> (\<lambda>a. block_hash (heap s a)) ` set xs"
    using Cons.prems(2) by simp
  have c1: "\<forall>a\<in>set (x # xs). map_of (chain_dict s1) (block_hash (heap s a)) = Some a"
    using in1 out1 hx_out by (simp add: update_conv')
  have c2: "\<forall>k. k \<notin> (\<lambda>a. block_hash (heap s a)) ` set (x # xs)
              \<longrightarrow> map_of (chain_dict s1) k = map_of (chain_dict s) k"
    using out1 by (simp add: update_conv')
  have c3: "set (chain_dict s1) \<subseteq> set (chain_dict s) \<union> (\<lambda>a. (block_hash (heap s a), a)) ` set (x # xs)"
    using sub1 set_update_entries [of ?hx x "chain_dict s"] by auto
  have keep2: "h \<in> set (bucket_list (files s1) fh ch)"
    if "h \<in> set (bucket_list fs fh ch)" for h fh ch
    using keep1 that by (simp add: bucket_list_files_setitem_index)
  have key2: "bucket (files s1) fh ch \<noteq> None" if "bucket fs fh ch \<noteq> None" for fh ch
    using key1 that by (simp add: bucket_files_setitem_index)
  have c4: "\<forall>h fh ch. h \<in> set (bucket_list (files s) fh ch)
              \<longrightarrow> h \<in> set (bucket_list (files s1) fh ch)"
    using keep2 files_append_keeps [OF Cons.prems(1) ap] by blast
  have c5: "\<forall>fh ch. bucket (files s) fh ch \<noteq> None \<longrightarrow> bucket (files s1) fh ch \<noteq> None"
    using key2 files_append_bucket_keeps [OF Cons.prems(1) ap] by blast
  from bk have "?hx \<in> set (bucket_list fs ?fh ?ch)"
    by (simp add: bucket_list_def)
  then have "?hx \<in> set (bucket_list (files s1) ?fh ?ch)"
    by (rule keep2)
  with reg1 have c6: "\<forall>a\<in>set (x # xs). block_hash (heap s a)
              \<in> set (bucket_list (files s1) (file_hash (heap s a)) (content_hash (heap s a)))"
    by simp
  from eq r have "merge_scan (x # xs) s added start = (Inr (added @ x # xs, Some f), s1)"
    by simp
  with h1 l1 ok1 c1 c2 c3 c4 c5 c6 show ?case by blast
qed

text \<open>
  The second loop of \<open>merge_blocks\<close>, from the tip down the path \<open>t\<close> to the block \<open>f\<close>
  where the new blocks fork off.
\<close>

lemma merge_unwind_path:
  assumes ok: "buckets_ok (files s)"
    and dist: "distinct (map (\<lambda>a. block_hash (heap s a)) (t @ [f]))"
    and fl: "follows s t f"
    and pres: "list_all (\<lambda>a. map_of (chain_dict s) (block_hash (heap s a)) = Some a) (t @ [f])"
    and reg: "list_all (registered s) t"
  shows "\<exists>s'. merge_unwind s (hd (t @ [f])) f acc = (Inr (acc @ t), s')
      \<and> heap s' = heap s \<and> latest_block s' = latest_block s \<and> buckets_ok (files s')
      \<and> (\<forall>k. k \<notin> (\<lambda>a. block_hash (heap s a)) ` set t
              \<longrightarrow> map_of (chain_dict s') k = map_of (chain_dict s) k)
      \<and> set (chain_dict s')
          \<subseteq> {e \<in> set (chain_dict s). fst e \<notin> (\<lambda>a. block_hash (heap s a)) ` set t}
      \<and> (\<forall>h fh ch. h \<in> set (bucket_list (files s) fh ch)
                     \<and> h \<notin> (\<lambda>a. block_hash (heap s a)) ` set t
              \<longrightarrow> h \<in> set (bucket_list (files s') fh ch))
      \<and> (\<forall>fh ch. bucket (files s) fh ch \<noteq> None \<longrightarrow> bucket (files s') fh ch \<noteq> None)"
  using assms
proof (induction t arbitrary: s acc)
  case Nil
  then show ?case by (simp add: merge_unwind_stop)
next
  case (Cons a t)
  let ?ha = "block_hash (heap s a)"
  let ?fh = "file_hash (heap s a)"
  let ?ch = "content_hash (heap s a)"
  let ?n = "hd (t @ [f])"
  let ?cd = "AList.delete ?ha (chain_dict s)"
  have n_in: "?n \<in> set (t @ [f])" by (cases t) simp_all
  from Cons.prems(2) have hne: "block_hash (heap s x) \<noteq> ?ha" if "x \<in> set (t @ [f])" for x
    using that by (auto simp: image_iff)
  from hne [of f] have stop: "?ha \<noteq> block_hash (heap s f)" by auto
  from Cons.prems(4) have pa: "map_of (chain_dict s) ?ha \<noteq> None" by simp
  from Cons.prems(5) have "registered s a" by simp
  then have mem: "?ha \<in> set (bucket_list (files s) ?fh ?ch)"
    by (simp add: registered_def)
  then obtain v where v: "bucket (files s) ?fh ?ch = Some v"
    by (cases "bucket (files s) ?fh ?ch") (auto simp: bucket_list_def)
  with Cons.prems(1) obtain hs where "v = ListVal hs"
    unfolding buckets_ok_def by blast
  with v mem have bk: "bucket (files s) ?fh ?ch = Some (ListVal hs)" and inhs: "?ha \<in> set hs"
    by (simp_all add: bucket_list_def)
  from files_remove_ok [OF Cons.prems(1) bk inhs] obtain fs where
    rm: "files_remove (files s) ?fh ?ch ?ha = (Inr (), fs)" and okf: "buckets_ok fs"
    and bkf: "\<forall>fh' ch'. bucket fs fh' ch' =
                 (if fh' = ?fh \<and> ch' = ?ch then Some (ListVal (remove1 ?ha hs))
                  else bucket (files s) fh' ch')"
    by blast
  from Cons.prems(3) have prev: "previous_block_hash (heap s a) = block_hash (heap s ?n)"
    and fl': "follows s t f" by simp_all
  from Cons.prems(4) n_in have "map_of (chain_dict s) (block_hash (heap s ?n)) = Some ?n"
    by (auto simp: list_all_iff)
  with hne [OF n_in] prev have nxt: "map_of ?cd (previous_block_hash (heap s a)) = Some ?n"
    by (simp add: delete_conv')
  let ?s1 = "s\<lparr>chain_dict := ?cd, files := fs\<rparr>"
  from stop pa rm nxt
  have eq: "merge_unwind s a f acc = merge_unwind ?s1 ?n f (acc @ [a])"
    by (rule merge_unwind_step)
  have dist1: "distinct (map (\<lambda>a. block_hash (heap ?s1 a)) (t @ [f]))"
    using Cons.prems(2) by simp
  from fl' have fl1: "follows ?s1 t f"
    by (rule follows_cong) simp
  have pres1: "list_all (\<lambda>a. map_of (chain_dict ?s1) (block_hash (heap ?s1 a)) = Some a) (t @ [f])"
    using Cons.prems(4) hne by (auto simp: list_all_iff delete_conv')
  have keepf: "h \<in> set (bucket_list fs fh ch)"
    if "h \<in> set (bucket_list (files s) fh ch)" and "h \<noteq> ?ha" for h fh ch
    using that bkf bk by (auto simp: bucket_list_def split: if_splits)
  have reg1: "list_all (registered ?s1) t"
    unfolding list_all_iff
  proof
    fix x assume x: "x \<in> set t"
    with Cons.prems(5) have "registered s x" by (simp add: list_all_iff)
    moreover from x hne [of x] have "block_hash (heap s x) \<noteq> ?ha" by simp
    ultimately show "registered ?s1 x"
      using keepf by (simp add: registered_def)
  qed
  from Cons.IH [OF _ dist1 fl1 pres1 reg1, of "acc @ [a]"] okf obtain s' where
    r: "merge_unwind ?s1 ?n f (acc @ [a]) = (Inr ((acc @ [a]) @ t), s')"
    and h': "heap s' = heap s" and l': "latest_block s' = latest_block s"
    and ok': "buckets_ok (files s')"
    and out': "\<forall>k. k \<notin> (\<lambda>a. block_hash (heap s a)) ` set t
              \<longrightarrow> map_of (chain_dict s') k = map_of ?cd k"
    and sub': "set (chain_dict s')
          \<subseteq> {e \<in> set ?cd. fst e \<notin> (\<lambda>a. block_hash (heap s a)) ` set t}"
    and keep': "\<forall>h fh ch. h \<in> set (bucket_list fs fh ch)
                     \<and> h \<notin> (\<lambda>a. block_hash (heap s a)) ` set t
              \<longrightarrow> h \<in> set (bucket_list (files s') fh ch)"
    and key': "\<forall>fh ch. bucket fs fh ch \<noteq> None \<longrightarrow> bucket (files s') fh ch \<noteq> None"
    by auto
  have c1: "\<forall>k. k \<notin> (\<lambda>a. block_hash (heap s a)) ` set (a # t)
              \<longrightarrow> map_of (chain_dict s') k = map_of (chain_dict s) k"
    using out' by (simp add: delete_conv')
  have c2: "set (chain_dict s')
          \<subseteq> {e \<in> set (chain_dict s). fst e \<notin> (\<lambda>a. block_hash (heap s a)) ` set (a # t)}"
    using sub' by (auto simp: set_delete_entries)
  have c3: "\<forall>h fh ch. h \<in> set (bucket_list (files s) fh ch)
                     \<and> h \<notin> (\<lambda>a. block_hash (heap s a)) ` set (a # t)
              \<longrightarrow> h \<in> set (bucket_list (files s') fh ch)"
    using keep' keepf by simp
  have c4: "\<forall>fh ch. bucket (files s) fh ch \<noteq> None \<longrightarrow> bucket (files s') fh ch \<noteq> None"
    using key' bkf by (simp split: if_splits)
  from eq r have "merge_unwind s (hd ((a # t) @ [f])) f acc = (Inr (acc @ a # t), s')"
    by simp
  with h' l' ok' c1 c2 c3 c4 show ?case by blast
qed

lemma linked_present:
  "linked s p \<Longrightarrow> x \<in> set p \<Longrightarrow> map_of (chain_dict s) (block_hash (heap s x)) = Some x"
proof (induction s p rule: linked.induct)
  case (1 s)
  then show ?case by simp
next
  case (2 s a)
  then show ?case by auto
next
  case (3 s a b p)
  then show ?case by auto
qed

lemma registered_bucket:
  "registered s x \<Longrightarrow> bucket (files s) (file_hash (heap s x)) (content_hash (heap s x)) \<noteq> None"
  by (cases "bucket (files s) (file_hash (heap s x)) (content_hash (heap s x))")
    (auto simp: registered_def bucket_list_def)

text \<open>
  \<open>merge_blocks\<close> on a kept chain \<open>t @ f # r\<close> and a list of new blocks that forks off at
  \<open>f\<close>: the call returns the new blocks followed by the blocks of \<open>t\<close>, oldest first,
  and the chain is kept, with the blocks of \<open>t\<close> on top of the new ones.
\<close>

lemma merge_blocks_kept:
  assumes k: "kept s (t @ f # r)"
    and ne: "new \<noteq> []" and dn: "distinct new" and disj: "set new \<inter> set (t @ f # r) = {}"
    and fl: "follows s (rev new) f"
    and hl: "block_hash (heap s (last new)) \<noteq> None"
    and nc: "no_collision s (rev new @ t @ f # r)"
    and mg: "merge_blocks H new s = (res, s')"
    and nc': "no_collision s' (t @ rev new @ f # r)"
  shows "res = Inr (new @ rev t) \<and> kept s' (t @ rev new @ f # r)
       \<and> (\<forall>x. x \<notin> set t \<longrightarrow> heap s' x = heap s x)"
proof -
  let ?p = "t @ f # r"
  let ?q = "rev new @ f # r"
  let ?hs = "\<lambda>a. block_hash (heap s a)"
  from k have lk: "linked s ?p" and tip: "latest_block s = hd ?p" and dist: "distinct ?p"
    and keys: "list_all (\<lambda>(k, a). a \<in> set ?p \<and> k = ?hs a) (chain_dict s)"
    and ok: "buckets_ok (files s)" and reg: "list_all (registered s) ?p"
    by (simp_all add: kept_def)
  from nc have dh: "distinct (map ?hs (rev new @ ?p))"
    and nz: "list_all (\<lambda>a. ?hs a \<noteq> Some []) (rev new @ ?p)"
    by (simp_all add: no_collision_def)
  from dh have "inj_on ?hs (set (rev new @ ?p))"
    by (rule distinct_map [THEN iffD1, THEN conjunct2])
  then have io: "inj_on ?hs (set new \<union> set ?p)"
    by (simp only: set_append set_rev)
  have inj: "x = y" if "?hs x = ?hs y" "x \<in> set new \<union> set ?p" "y \<in> set new \<union> set ?p" for x y
    using io that by (rule inj_onD)
  have keysD: "a \<in> set ?p \<and> k = ?hs a" if "(k, a) \<in> set (chain_dict s)" for k a
    using keys that by (auto simp: list_all_iff)
  have fresh: "map_of (chain_dict s) (?hs x) = None" if x: "x \<in> set new" for x
  proof (rule ccontr)
    assume "map_of (chain_dict s) (?hs x) \<noteq> None"
    then obtain a where "map_of (chain_dict s) (?hs x) = Some a" by auto
    then have "(?hs x, a) \<in> set (chain_dict s)" by (rule map_of_SomeD)
    from keysD [OF this] have a: "a \<in> set ?p" "?hs x = ?hs a" by simp_all
    from inj [OF a(2)] x a(1) have "x = a" by auto
    with a(1) x disj show False by auto
  qed
  have pres: "map_of (chain_dict s) (?hs x) = Some x" if "x \<in> set ?p" for x
    using lk that by (rule linked_present)
  have f_in: "f \<in> set ?p" by simp
  have d1: "distinct (map ?hs (rev new))"
    using dh by simp
  have n1: "list_all (\<lambda>a. map_of (chain_dict s) (?hs a) = None) (rev new)"
    using fresh by (simp add: list_all_iff)
  have st: "rev new = [] \<longrightarrow> None = Some f"
    using ne by simp
  from merge_scan_fresh [OF ok d1 n1 fl pres [OF f_in] st, of "[]"] obtain s1 where
    sc: "merge_scan (rev new) s [] None = (Inr (rev new, Some f), s1)"
    and h1: "heap s1 = heap s" and l1: "latest_block s1 = latest_block s"
    and ok1: "buckets_ok (files s1)"
    and in1: "\<forall>a\<in>set (rev new). map_of (chain_dict s1) (?hs a) = Some a"
    and out1: "\<forall>k. k \<notin> ?hs ` set (rev new) \<longrightarrow> map_of (chain_dict s1) k = map_of (chain_dict s) k"
    and sub1: "set (chain_dict s1) \<subseteq> set (chain_dict s) \<union> (\<lambda>a. (?hs a, a)) ` set (rev new)"
    and keep1: "\<forall>h fh ch. h \<in> set (bucket_list (files s) fh ch)
              \<longrightarrow> h \<in> set (bucket_list (files s1) fh ch)"
    and key1: "\<forall>fh ch. bucket (files s) fh ch \<noteq> None \<longrightarrow> bucket (files s1) fh ch \<noteq> None"
    and reg1: "\<forall>a\<in>set (rev new). ?hs a
              \<in> set (bucket_list (files s1) (file_hash (heap s a)) (content_hash (heap s a)))"
    by auto
  have not_new: "?hs x \<notin> ?hs ` set (rev new)" if x: "x \<in> set ?p" for x
  proof
    assume "?hs x \<in> ?hs ` set (rev new)"
    then obtain y where y: "y \<in> set new" "?hs x = ?hs y" by auto
    from inj [OF y(2)] x y(1) have "x = y" by auto
    with x y(1) disj show False by auto
  qed
  have old1: "map_of (chain_dict s1) (?hs x) = Some x" if "x \<in> set ?p" for x
    using out1 not_new [OF that] pres [OF that] by simp
  have lq1: "linked s1 ?q"
  proof -
    from lk have "linked s (f # r)" by (rule linked_suffix)
    then have "linked s1 (f # r)"
    proof (rule linked_frame)
      fix x assume "x \<in> set (f # r)"
      then have "x \<in> set ?p" by auto
      from pres [OF this] old1 [OF this]
      show "map_of (chain_dict s1) (?hs x) = map_of (chain_dict s) (?hs x)" by simp
    qed (simp add: h1)
    moreover from fl have "follows s1 (rev new) f"
      by (rule follows_cong) (simp add: h1)
    moreover have "list_all (\<lambda>a. map_of (chain_dict s1) (block_hash (heap s1 a)) = Some a) (rev new)"
      using in1 by (simp add: list_all_iff h1)
    moreover have "list_all (\<lambda>a. block_hash (heap s1 a) \<noteq> Some []) (rev new @ [f])"
      using nz by (simp add: h1)
    ultimately show ?thesis by (rule linked_prefix)
  qed
  have dq: "distinct ?q"
    using dn dist disj by auto
  have keys1: "a \<in> set new \<union> set ?p \<and> k = ?hs a" if "(k, a) \<in> set (chain_dict s1)" for k a
    using sub1 that keysD by auto
  have regq1: "registered s1 x" if "x \<in> set new \<union> set ?p" for x
  proof (cases "x \<in> set new")
    case True
    with reg1 show ?thesis by (simp add: registered_def h1)
  next
    case False
    with that reg have "registered s x" by (auto simp: list_all_iff)
    with keep1 show ?thesis by (simp add: registered_def h1)
  qed
  show ?thesis
  proof (cases "t = []")
    case True
    with tip l1 have lt: "latest_block s1 = f" by simp
    from mg sc lt ne have res: "res = Inr new" and s': "s' = s1\<lparr>latest_block := last new\<rparr>"
      by (simp_all add: merge_blocks_def)
    from lq1 have "linked s' ?q"
      by (rule linked_frame) (simp_all add: s')
    moreover have "latest_block s' = hd ?q"
      using ne by (simp add: s' hd_rev)
    moreover have "list_all (\<lambda>(k, a). a \<in> set ?q \<and> k = block_hash (heap s' a)) (chain_dict s')"
      using keys1 True by (auto simp: list_all_iff s' h1)
    moreover have "list_all (registered s') ?q"
      using regq1 True by (auto simp: list_all_iff s' registered_def)
    ultimately show ?thesis
      using res dq nc' ok1 True by (simp add: kept_def s' h1)
  next
    case False
    then have ht: "hd ?p = hd t" "hd t \<in> set t" by simp_all
    have not_t: "?hs x \<notin> ?hs ` set t" if x: "x \<in> set ?q" for x
    proof
      assume "?hs x \<in> ?hs ` set t"
      then obtain y where y: "y \<in> set t" "?hs x = ?hs y" by auto
      from x have "x \<in> set new \<union> set ?p" by auto
      from inj [OF y(2) this] y(1) have "x = y" by auto
      with x y(1) disj dist show False by auto
    qed
    from not_t [of f] ht(2) have "?hs f \<noteq> ?hs (hd t)" by auto
    with tip l1 ht(1) have fork: "block_hash (heap s1 f) \<noteq> block_hash (heap s1 (latest_block s1))"
      by (simp add: h1)
    let ?s1' = "s1\<lparr>latest_block := last new\<rparr>"
    have u_ok: "buckets_ok (files ?s1')" using ok1 by simp
    have u_dist: "distinct (map (\<lambda>a. block_hash (heap ?s1' a)) (t @ [f]))"
      using dh by (simp add: h1)
    from lk have "follows s t f" by (rule linked_follows)
    then have u_fl: "follows ?s1' t f"
      by (rule follows_cong) (simp add: h1)
    have u_pres: "list_all (\<lambda>a. map_of (chain_dict ?s1') (block_hash (heap ?s1' a)) = Some a) (t @ [f])"
      using old1 by (simp add: list_all_iff h1)
    have u_reg: "list_all (registered ?s1') t"
      using regq1 by (simp add: list_all_iff registered_def)
    from merge_unwind_path [OF u_ok u_dist u_fl u_pres u_reg, of "[]"] obtain s2 where
      un: "merge_unwind ?s1' (hd (t @ [f])) f [] = (Inr t, s2)"
      and h2: "heap s2 = heap s" and l2: "latest_block s2 = last new"
      and ok2: "buckets_ok (files s2)"
      and out2: "\<forall>k. k \<notin> ?hs ` set t \<longrightarrow> map_of (chain_dict s2) k = map_of (chain_dict s1) k"
      and sub2: "set (chain_dict s2) \<subseteq> {e \<in> set (chain_dict s1). fst e \<notin> ?hs ` set t}"
      and keep2: "\<forall>h fh ch. h \<in> set (bucket_list (files s1) fh ch) \<and> h \<notin> ?hs ` set t
              \<longrightarrow> h \<in> set (bucket_list (files s2) fh ch)"
      and key2: "\<forall>fh ch. bucket (files s1) fh ch \<noteq> None \<longrightarrow> bucket (files s2) fh ch \<noteq> None"
      by (auto simp: h1)
    from False tip l1 have cur: "latest_block s1 = hd (t @ [f])" by simp
    from mg sc fork ne un cur
    have re: "merge_reinsert H (rev t) s2 new = (res, s')"
      by (simp add: merge_blocks_def)
    have "linked s2 ?q"
      using lq1
    proof (rule linked_frame)
      fix x assume "x \<in> set ?q"
      from not_t [OF this] out2
      show "map_of (chain_dict s2) (block_hash (heap s1 x)) = map_of (chain_dict s1) (block_hash (heap s1 x))"
        by (simp add: h1)
    qed (simp add: h1 h2)
    moreover have "latest_block s2 = hd ?q"
      using ne by (simp add: l2 hd_rev)
    moreover have "no_collision s2 ?q"
      using nc by (auto simp: no_collision_def h2)
    moreover have "list_all (\<lambda>(k, a). a \<in> set ?q \<and> k = block_hash (heap s2 a)) (chain_dict s2)"
      unfolding list_all_iff
    proof
      fix e assume e: "e \<in> set (chain_dict s2)"
      obtain k a where ka: "e = (k, a)" by (cases e)
      from e sub2 ka have in1: "(k, a) \<in> set (chain_dict s1)" and kt: "k \<notin> ?hs ` set t"
        by auto
      from keys1 [OF in1] have a: "a \<in> set new \<union> set ?p" "k = ?hs a" by simp_all
      with kt have "a \<notin> set t" by auto
      with a show "case e of (k, a) \<Rightarrow> a \<in> set ?q \<and> k = block_hash (heap s2 a)"
        by (auto simp: ka h2)
    qed
    moreover have "list_all (registered s2) ?q"
      unfolding list_all_iff
    proof
      fix x assume x: "x \<in> set ?q"
      then have "x \<in> set new \<union> set ?p" by auto
      from regq1 [OF this] not_t [OF x] keep2
      show "registered s2 x" by (simp add: registered_def h1 h2)
    qed
    ultimately have k2: "kept s2 ?q"
      using dq ok2 by (simp add: kept_def)
    have r_dist: "distinct (rev t)" using dist by simp
    have r_disj: "set (rev t) \<inter> set ?q = {}" using dist disj by auto
    have r_key: "list_all (\<lambda>a. bucket (files s2) (file_hash (heap s2 a)) (content_hash (heap s2 a)) \<noteq> None) (rev t)"
      unfolding list_all_iff
    proof
      fix x assume "x \<in> set (rev t)"
      with reg have "registered s x" by (auto simp: list_all_iff)
      then have "bucket (files s) (file_hash (heap s x)) (content_hash (heap s x)) \<noteq> None"
        by (rule registered_bucket)
      with key1 key2
      show "bucket (files s2) (file_hash (heap s2 x)) (content_hash (heap s2 x)) \<noteq> None"
        by (simp add: h2)
    qed
    have r_tip: "block_hash (heap s2 (latest_block s2)) \<noteq> None"
      using hl by (simp add: h2 l2)
    have r_nc: "no_collision s' (rev (rev t) @ ?q)"
      using nc' by simp
    have "heap s' x = heap s x" if "x \<notin> set t" for x
    proof -
      from that have "x \<notin> set (rev t)" by simp
      with re have "heap s' x = heap s2 x" by (rule merge_reinsert_heap_other)
      then show ?thesis by (simp add: h2)
    qed
    with kept_reinsert [OF k2 r_dist r_disj r_key r_tip re r_nc]
    show ?thesis by simp
  qed
qed

lemma kept_fresh:
  assumes "hp INITIAL_BLOCK = initial_block H" and "Blockchain_init hp None = Inr s"
    and "no_collision s [INITIAL_BLOCK]"
  shows "kept s [INITIAL_BLOCK]"
proof -
  from fresh_chain_linked [OF assms(1,2)]
  have lk: "linked s [INITIAL_BLOCK]" and tip: "latest_block s = INITIAL_BLOCK"
    and hp: "heap s = hp" by blast+
  let ?g = "hp INITIAL_BLOCK"
  from assms(2) obtain fs where
    ap: "files_append [] (file_hash ?g) (content_hash ?g) (block_hash ?g) = Inr fs"
    and fs: "files s = fs" and cd: "chain_dict s = [(block_hash ?g, INITIAL_BLOCK)]"
    by (auto simp: Blockchain_init_def Let_def split: sum.splits)
  have e: "buckets_ok []" by (simp add: buckets_ok_def bucket_def)
  from files_append_ok [OF e, of "file_hash ?g" "content_hash ?g" "block_hash ?g"] ap
  have ok: "buckets_ok fs"
    and "bucket fs (file_hash ?g) (content_hash ?g)
      = Some (ListVal (bucket_list [] (file_hash ?g) (content_hash ?g) @ [block_hash ?g]))"
    by auto
  then have "registered s INITIAL_BLOCK"
    by (simp add: registered_def bucket_list_def fs hp)
  with lk tip assms(3) ok show ?thesis
    by (simp add: kept_def cd hp fs)
qed

lemma kept_stored:
  assumes k: "kept s p" and same: "list_all (\<lambda>a. hp a = heap s a) p"
  shows "kept (s\<lparr>heap := hp\<rparr>) p"
proof -
  let ?s' = "s\<lparr>heap := hp\<rparr>"
  from same have eq: "hp x = heap s x" if "x \<in> set p" for x
    using that by (simp add: list_all_iff)
  from k have lk: "linked s p" and nc: "no_collision s p"
    and keys: "list_all (\<lambda>(k, a). a \<in> set p \<and> k = block_hash (heap s a)) (chain_dict s)"
    and reg: "list_all (registered s) p"
    by (simp_all add: kept_def)
  from lk have "linked ?s' p"
    by (rule linked_frame) (simp_all add: eq)
  moreover from nc have "no_collision ?s' p"
    by (rule no_collision_cong) (simp add: eq)
  moreover have "list_all (\<lambda>(k, a). a \<in> set p \<and> k = block_hash (heap ?s' a)) (chain_dict ?s')"
    using keys eq by (auto simp: list_all_iff)
  moreover have "list_all (registered ?s') p"
    using reg eq by (auto simp: list_all_iff registered_def)
  ultimately show ?thesis
    using k by (simp add: kept_def)
qed

text \<open>Every built chain is kept.\<close>

lemma built_kept:
  "built H s p \<Longrightarrow> kept s p"
proof (induction rule: built.induct)
  case (fresh hp s)
  then show ?case by (rule kept_fresh)
next
  case (inserted s p a u s')
  from inserted.IH inserted.hyps(2,3,4) show ?case
    by (rule kept_insert_block)
next
  case (merged s t f r new res s')
  from merge_blocks_kept [OF merged.IH merged.hyps(2-9)]
  show ?case by simp
next
  case (stored s p hp)
  from stored.IH stored.hyps(2) show ?case
    by (rule kept_stored)
qed


lemma kept_chain_list:
  assumes "kept s p"
  shows "chain_list s = Some (Inr p)"
proof -
  from assms have lk: "linked s p" and tip: "latest_block s = hd p"
    by (simp_all add: kept_def)
  from lk obtain a q where p: "p = a # q" by (cases p) auto
  with lk tip have "linked s (a # q)" "latest_block s = a" by simp_all
  then have "chain_list s = Some (Inr (a # q))" by (rule chain_list_linked)
  with p show ?thesis by simp
qed

lemma kept_verify_integrity:
  assumes "kept s p" and "same_split (map (heap s) p)"
  shows "verify_integrity s = Some (whole_files (map (heap s) p))"
proof -
  from assms(1) have lk: "linked s p" and tip: "latest_block s = hd p"
    by (simp_all add: kept_def)
  from lk obtain a q where p: "p = a # q" by (cases p) auto
  with lk tip have "linked s (a # q)" "latest_block s = a" by simp_all
  then have "verify_integrity s = Some (fold count_block (map (heap s) (a # q)) [] = [])"
    by (rule verify_integrity_linked)
  moreover from assms(2) have "fold count_block (map (heap s) p) [] = []
      \<longleftrightarrow> whole_files (map (heap s) p)"
    by (rule count_fold_whole_files)
  ultimately show ?thesis by (simp add: p)
qed


section \<open>Merging a fork\<close>

lemma single_chunks_whole:
  assumes "list_all (\<lambda>b. index_all b = 1) bs"
  shows "same_split bs \<and> whole_files bs"
  using assms by (auto simp: same_split_def whole_files_def list_all_iff)

text \<open>
  The general form: a built chain \<open>t @ f # r\<close>, and new blocks that fork off at any
  block \<open>f\<close> of it. The call returns the new blocks followed by the blocks of \<open>t\<close>,
  which are linked on top of the new ones.
\<close>

lemma merge_blocks_built:
  assumes b: "built H s (t @ f # r)"
    and new: "new \<noteq> []" "distinct new" "set new \<inter> set (t @ f # r) = {}"
    and fl: "follows s (rev new) f"
    and hl: "block_hash (heap s (last new)) \<noteq> None"
    and nc: "no_collision s (rev new @ t @ f # r)"
    and mg: "merge_blocks H new s = (res, s')"
    and nc': "no_collision s' (t @ rev new @ f # r)"
  shows "res = Inr (new @ rev t)
       \<and> latest_block s' = hd (t @ rev new)
       \<and> follows s' (t @ rev new) f
       \<and> list_all (\<lambda>a. map_of (chain_dict s') (block_hash (heap s' a)) = Some a)
           (t @ rev new @ f # r)
       \<and> chain_list s' = Some (Inr (t @ rev new @ f # r))
       \<and> (same_split (map (heap s') (t @ rev new @ f # r))
            \<longrightarrow> verify_integrity s'
                = Some (whole_files (map (heap s') (t @ rev new @ f # r))))
       \<and> (list_all (\<lambda>a. index_all (heap s' a) = 1) (t @ rev new @ f # r)
            \<longrightarrow> verify_integrity s' = Some True)"
proof -
  let ?p' = "t @ rev new @ f # r"
  from b have "kept s (t @ f # r)" by (rule built_kept)
  from merge_blocks_kept [OF this new fl hl nc mg nc']
  have res: "res = Inr (new @ rev t)" and k': "kept s' ?p'" by simp_all
  from k' have lk: "linked s' ?p'" and tip: "latest_block s' = hd ?p'"
    by (simp_all add: kept_def)
  from new(1) have tip': "latest_block s' = hd (t @ rev new)"
    using tip by (cases t) (simp_all add: hd_append)
  from lk have "linked s' ((t @ rev new) @ f # r)" by simp
  then have fl': "follows s' (t @ rev new) f" by (rule linked_follows)
  have pres: "list_all (\<lambda>a. map_of (chain_dict s') (block_hash (heap s' a)) = Some a) ?p'"
    unfolding list_all_iff using linked_present [OF lk] by blast
  from k' have cl: "chain_list s' = Some (Inr ?p')" by (rule kept_chain_list)
  have char: "verify_integrity s' = Some (whole_files (map (heap s') ?p'))"
    if "same_split (map (heap s') ?p')"
    using k' that by (rule kept_verify_integrity)
  have single: "verify_integrity s' = Some True"
    if "list_all (\<lambda>a. index_all (heap s' a) = 1) ?p'"
  proof -
    from that have "list_all (\<lambda>b. index_all b = 1) (map (heap s') ?p')"
      by (auto simp: list_all_iff)
    from single_chunks_whole [OF this] char show ?thesis by simp
  qed
  from res tip' fl' pres cl char single show ?thesis by blast
qed

text \<open>
  Blocks at the front of the list that are in \<open>self.__chain\<close> already (the sender's
  copies of blocks the chain holds) are skipped by the first loop and change nothing:
  the call is the call on the remaining blocks.
\<close>

lemma merge_scan_append:
  "merge_scan (xs @ ys) s added start =
     (case merge_scan xs s added start of
        (Inl e, s1) \<Rightarrow> (Inl e, s1)
      | (Inr (added1, start1), s1) \<Rightarrow> merge_scan ys s1 added1 start1)"
  by (induction xs s added start rule: merge_scan.induct)
    (simp_all add: Let_def split: sum.splits)

lemma merge_scan_keys:
  "merge_scan xs s added start = (r, s1) \<Longrightarrow>
   heap s1 = heap s
   \<and> (map_of (chain_dict s) k \<noteq> None \<longrightarrow> map_of (chain_dict s1) k \<noteq> None)"
proof (induction xs s added start rule: merge_scan.induct)
  case (1 s added start)
  then show ?case by simp
next
  case (2 a as s added start)
  let ?b = "heap s a"
  show ?case
  proof (cases "map_of (chain_dict s) (block_hash ?b) = None")
    case False
    with "2.prems" have "merge_scan as s added start = (r, s1)" by simp
    with False show ?thesis using "2.IH"(2) by simp
  next
    case True
    let ?s1 = "s\<lparr>chain_dict := AList.update (block_hash ?b) a (chain_dict s)\<rparr>"
    show ?thesis
    proof (cases "files_append (files ?s1) (file_hash ?b) (content_hash ?b) (block_hash ?b)")
      case (Inl e)
      with True "2.prems" have "s1 = ?s1" by (simp add: Let_def)
      then show ?thesis by (simp add: update_conv')
    next
      case (Inr fs)
      let ?s2 = "?s1\<lparr>files := files_setitem fs (file_hash ?b) IndexAllKey (IntVal (index_all ?b))\<rparr>"
      from True Inr "2.prems" have "merge_scan as ?s2 (added @ [a])
          (case map_of (chain_dict ?s2) (previous_block_hash ?b) of
             None \<Rightarrow> start | Some c \<Rightarrow> Some c) = (r, s1)"
        by (simp add: Let_def)
      from "2.IH"(1) [OF refl True refl Inr refl this]
      show ?thesis by (simp add: update_conv')
    qed
  qed
qed

lemma merge_blocks_present_prefix:
  assumes "list_all (\<lambda>a. map_of (chain_dict s) (block_hash (heap s a)) \<noteq> None) pre"
  shows "merge_blocks H (pre @ new) s = merge_blocks H new s"
proof -
  obtain r s1 where sc: "merge_scan (rev new) s [] None = (r, s1)"
    by (cases "merge_scan (rev new) s [] None")
  have "merge_scan (rev (pre @ new)) s [] None = merge_scan (rev new) s [] None"
  proof (cases r)
    case (Inl e)
    with sc show ?thesis by (simp add: merge_scan_append)
  next
    case (Inr p)
    obtain added1 start1 where p: "p = (added1, start1)" by (cases p)
    from merge_scan_keys [OF sc] assms
    have "list_all (\<lambda>a. map_of (chain_dict s1) (block_hash (heap s1 a)) \<noteq> None) (rev pre)"
      by (simp add: list_all_iff)
    then have "merge_scan (rev pre) s1 added1 start1 = (Inr (added1, start1), s1)"
      by (rule merge_scan_all_present)
    with sc Inr p show ?thesis by (simp add: merge_scan_append)
  qed
  then show ?thesis by (simp add: merge_blocks_def)
qed

lemma built_merged_prefix:
  assumes b: "built H s (t @ f # r)"
    and pre: "list_all (\<lambda>a. map_of (chain_dict s) (block_hash (heap s a)) \<noteq> None) pre"
    and new: "new \<noteq> []" "distinct new" "set new \<inter> set (t @ f # r) = {}"
      "follows s (rev new) f" "block_hash (heap s (last new)) \<noteq> None"
      "no_collision s (rev new @ t @ f # r)"
    and mg: "merge_blocks H (pre @ new) s = (res, s')"
    and nc': "no_collision s' (t @ rev new @ f # r)"
  shows "built H s' (t @ rev new @ f # r)"
proof -
  from mg pre have "merge_blocks H new s = (res, s')"
    by (simp add: merge_blocks_present_prefix)
  from built.merged [OF b new this nc'] show ?thesis .
qed







section \<open>verify_integrity on built chains\<close>










section \<open>The order of get_file_blocks\<close>

text \<open>
  C5: \<open>get_file_blocks\<close> does not return the blocks of a complete file in ascending
  index order for every insertion order. When the three chunks of a file are inserted in
  the order of index 2, 1, 0, the file is complete (\<open>contains_file\<close> is true) and
  \<open>get_file_blocks\<close> returns the blocks of index 0, 2, 1: \<open>blocks.insert(block.index, block)\<close>
  is applied to a list that is still shorter than the index.
\<close>

theorem get_file_blocks_not_sorted:
  "insert_blocks ideal_hash [1, 2, 3]
     (alloc_all 1
        [new_block ideal_hash [0x46] 3 [0x63] 2,
         new_block ideal_hash [0x46] 3 [0x62] 1,
         new_block ideal_hash [0x46] 3 [0x61] 0]
        (new_chain ideal_hash)) = (Inr (), reversed_example)
   \<and> fst (contains_file [0x46] reversed_example) = Inr True
   \<and> get_file_blocks [0x46] reversed_example = Inr [3, 1, 2]
   \<and> map (\<lambda>a. index (heap reversed_example a)) [3, 1, 2] = [0, 2, 1]"
proof -
  have "fst (contains_file [0x46] reversed_example) = Inr True"
    "get_file_blocks [0x46] reversed_example = Inr [3, 1, 2]"
    "map (\<lambda>a. index (heap reversed_example a)) [3, 1, 2] = [0, 2, 1]"
    by (simp_all add: reversed_example_state chain_eval contains_file_def get_file_blocks_def
        py_list_insert_def)
  with reversed_example_inserted show ?thesis by simp
qed

section \<open>Blocks of one file with different index_all\<close>

text \<open>
  C7: \<open>insert_block\<close> admits a block whose \<open>index_all\<close> differs from the one recorded for
  its file. After \<open>Block(b"F", 3, b"X", 0)\<close> the block \<open>Block(b"F", 2, b"Y", 0)\<close> is inserted
  without an error, whatever the hash function; both blocks are then in \<open>self.__chain\<close>
  with the same file hash and \<open>index_all\<close> 3 and 2, and the file record keeps 3.
\<close>

theorem insert_block_admits_other_split:
  "fst (insert_blocks H [1, 2]
         (alloc_all 1 [new_block H [0x46] 3 [0x58] 0, new_block H [0x46] 2 [0x59] 0]
            (new_chain H))) = Inr ()
   \<and> insert_blocks ideal_hash [1, 2]
         (alloc_all 1
            [new_block ideal_hash [0x46] 3 [0x58] 0,
             new_block ideal_hash [0x46] 2 [0x59] 0]
            (new_chain ideal_hash)) = (Inr (), resplit_example)
   \<and> map_of (chain_dict resplit_example) (block_hash (heap resplit_example 1)) = Some 1
   \<and> map_of (chain_dict resplit_example) (block_hash (heap resplit_example 2)) = Some 2
   \<and> map (\<lambda>a. (file_hash (heap resplit_example a), index_all (heap resplit_example a))) [1, 2]
       = [([0x46], 3), ([0x46], 2)]
   \<and> map_option recorded_index_all (map_of (files resplit_example) [0x46]) = Some (Some 3)"
proof -
  have "fst (insert_blocks H [1, 2]
         (alloc_all 1 [new_block H [0x46] 3 [0x58] 0, new_block H [0x46] 2 [0x59] 0]
            (new_chain H))) = Inr ()"
    by (simp add: chain_eval)
  moreover have "map_of (chain_dict resplit_example) (block_hash (heap resplit_example 1)) = Some 1"
    "map_of (chain_dict resplit_example) (block_hash (heap resplit_example 2)) = Some 2"
    "map (\<lambda>a. (file_hash (heap resplit_example a), index_all (heap resplit_example a))) [1, 2]
       = [([0x46], 3), ([0x46], 2)]"
    "map_option recorded_index_all (map_of (files resplit_example) [0x46]) = Some (Some 3)"
    by (simp_all add: resplit_example_state chain_eval recorded_index_all_def)
  ultimately show ?thesis
    using resplit_example_inserted by simp
qed

section \<open>The dictionaries stay dictionaries\<close>

text \<open>
  No operation of the chain puts a key twice into an association list: \<open>proper_dicts\<close>
  holds for the fresh chain and is kept by \<open>insert_block\<close>, \<open>contains_file\<close> and
  \<open>merge_blocks\<close>, whatever they return.
\<close>

lemma proper_dicts_files:
  "proper_dicts s \<longleftrightarrow> distinct (map fst (chain_dict s)) \<and> proper_files (files s)"
  by (simp add: proper_dicts_def proper_files_def)

lemma list_all_update:
  "P (k, v) \<Longrightarrow> list_all P al \<Longrightarrow> list_all P (AList.update k v al)"
  by (induction al) auto

lemma proper_files_update:
  "proper_files fs \<Longrightarrow> distinct (map fst d) \<Longrightarrow> proper_files (AList.update fh d fs)"
  by (simp add: proper_files_def distinct_update list_all_update)

lemma proper_files_lookup:
  "proper_files fs \<Longrightarrow> map_of fs fh = Some d \<Longrightarrow> distinct (map fst d)"
  by (auto simp: proper_files_def list_all_iff dest!: map_of_SomeD)

lemma proper_files_getitem:
  assumes "proper_files fs" and "files_getitem fs fh = (d, fs1)"
  shows "proper_files fs1 \<and> distinct (map fst d)"
  using assms
  by (auto simp: files_getitem_def proper_files_update proper_files_lookup split: option.splits)

lemma distinct_file_blocks_getitem:
  assumes "distinct (map fst d)" and "file_blocks_getitem d k = (v, d1)"
  shows "distinct (map fst d1)"
  using assms
  by (auto simp: file_blocks_getitem_def distinct_update split: option.splits)

lemma proper_files_setitem:
  "proper_files fs \<Longrightarrow> proper_files (files_setitem fs fh k v)"
  by (auto simp: files_setitem_def proper_files_update distinct_update
      dest: proper_files_getitem split: prod.splits)

lemma proper_files_append:
  assumes "proper_files fs" and "files_append fs fh ch h = Inr fs'"
  shows "proper_files fs'"
proof -
  obtain d fs1 where g: "files_getitem fs fh = (d, fs1)"
    by (cases "files_getitem fs fh")
  obtain v d1 where b: "file_blocks_getitem d (ContentKey ch) = (v, d1)"
    by (cases "file_blocks_getitem d (ContentKey ch)")
  from proper_files_getitem [OF assms(1) g]
  have p1: "proper_files fs1" and dd: "distinct (map fst d)" by simp_all
  from dd b have d1: "distinct (map fst d1)"
    by (rule distinct_file_blocks_getitem)
  from assms(2) g b obtain hs where
    "fs' = AList.update fh (AList.update (ContentKey ch) (ListVal (hs @ [h])) d1) fs1"
    by (auto simp: files_append_def split: fval.splits)
  with p1 d1 show ?thesis
    by (simp add: proper_files_update distinct_update)
qed

lemma proper_files_remove:
  assumes "proper_files fs" and "files_remove fs fh ch h = (r, fs')"
  shows "proper_files fs'"
proof -
  obtain d fs1 where g: "files_getitem fs fh = (d, fs1)"
    by (cases "files_getitem fs fh")
  obtain v d1 where b: "file_blocks_getitem d (ContentKey ch) = (v, d1)"
    by (cases "file_blocks_getitem d (ContentKey ch)")
  from proper_files_getitem [OF assms(1) g]
  have p1: "proper_files fs1" and dd: "distinct (map fst d)" by simp_all
  from dd b have d1: "distinct (map fst d1)"
    by (rule distinct_file_blocks_getitem)
  from assms(2) g b have "fs' = AList.update fh d1 fs1
      \<or> (\<exists>hs. fs' = AList.update fh (AList.update (ContentKey ch) (ListVal hs) d1) fs1)"
    by (auto simp: files_remove_def Let_def split: fval.splits if_splits)
  with p1 d1 show ?thesis
    by (auto simp: proper_files_update distinct_update)
qed

lemma proper_dicts_link_block:
  assumes "proper_dicts s" and "link_block H a s = (r, s')"
  shows "proper_dicts s'"
proof (cases "block_hash (heap s (latest_block s))")
  case None
  with assms show ?thesis by (simp add: link_block_def)
next
  case (Some p)
  let ?nb = "set_previous_block_hash H p (heap s a)"
  let ?cd = "AList.update (block_hash ?nb) a (chain_dict s)"
  have cd: "distinct (map fst ?cd)"
    using assms(1) by (simp add: proper_dicts_files distinct_update)
  show ?thesis
  proof (cases "files_append (files s) (file_hash ?nb) (content_hash ?nb) (block_hash ?nb)")
    case (Inl e)
    with Some assms(2) have "chain_dict s' = ?cd" "files s' = files s"
      by (auto simp: link_block_def Let_def)
    with cd assms(1) show ?thesis by (simp add: proper_dicts_files)
  next
    case (Inr fs)
    with Some assms(2) have s': "chain_dict s' = ?cd" "files s' = fs"
      by (auto simp: link_block_def Let_def)
    from assms(1) have "proper_files (files s)" by (simp add: proper_dicts_files)
    then have "proper_files fs" using Inr by (rule proper_files_append)
    with cd s' show ?thesis by (simp add: proper_dicts_files)
  qed
qed

lemma proper_dicts_insert_block:
  assumes "proper_dicts s" and "insert_block H a s = (r, s')"
  shows "proper_dicts s'"
proof -
  let ?s1 = "s\<lparr>files := files_setitem (files s) (file_hash (heap s a)) IndexAllKey
            (IntVal (index_all (heap s a)))\<rparr>"
  have p1: "proper_dicts ?s1"
    using assms(1) by (simp add: proper_dicts_files proper_files_setitem)
  from assms(2) consider "s' = s" | "link_block H a s = (r, s')" | "link_block H a ?s1 = (r, s')"
    | fb fb1 v where "map_of (files s) (file_hash (heap s a)) = Some fb"
        "file_blocks_getitem fb IndexAllKey = (v, fb1)"
        "s' = s\<lparr>files := AList.update (file_hash (heap s a)) fb1 (files s)\<rparr>"
    by (auto simp: insert_block_def Let_def split: option.splits if_splits prod.splits fval.splits)
  then show ?thesis
  proof cases
    case 1
    with assms(1) show ?thesis by simp
  next
    case 2
    with assms(1) show ?thesis by (rule proper_dicts_link_block)
  next
    case 3
    with p1 show ?thesis by (rule proper_dicts_link_block)
  next
    case 4
    from assms(1) 4(1) have "distinct (map fst fb)"
      by (auto simp: proper_dicts_files dest: proper_files_lookup)
    then have "distinct (map fst fb1)"
      using 4(2) by (rule distinct_file_blocks_getitem)
    with assms(1) 4(3) show ?thesis
      by (simp add: proper_dicts_files proper_files_update)
  qed
qed

lemma proper_dicts_new_chain: "proper_dicts (new_chain H)"
  by (simp add: proper_dicts_def new_chain_def)

lemma proper_dicts_insert_blocks:
  "proper_dicts s \<Longrightarrow> insert_blocks H as s = (r, s') \<Longrightarrow> proper_dicts s'"
proof (induction as arbitrary: s)
  case Nil
  then show ?case by simp
next
  case (Cons a as)
  obtain r1 s1 where step: "insert_block H a s = (r1, s1)"
    by (cases "insert_block H a s")
  with Cons.prems(1) have p1: "proper_dicts s1"
    by (rule proper_dicts_insert_block)
  show ?case
  proof (cases r1)
    case (Inl e)
    with Cons.prems(2) step p1 show ?thesis by simp
  next
    case (Inr u)
    with Cons.prems(2) step have "insert_blocks H as s1 = (r, s')" by simp
    with p1 show ?thesis by (rule Cons.IH)
  qed
qed

lemma proper_dicts_contains_file:
  assumes "proper_dicts s" and "contains_file fh s = (r, s')"
  shows "proper_dicts s'"
proof (cases "map_of (files s) fh")
  case None
  with assms show ?thesis by (simp add: contains_file_def)
next
  case (Some fb)
  obtain v fb1 where g: "file_blocks_getitem fb IndexAllKey = (v, fb1)"
    by (cases "file_blocks_getitem fb IndexAllKey")
  from assms(1) Some have "distinct (map fst fb)"
    by (auto simp: proper_dicts_files dest: proper_files_lookup)
  then have "distinct (map fst fb1)"
    using g by (rule distinct_file_blocks_getitem)
  with assms Some g show ?thesis
    by (cases v) (auto simp: contains_file_def proper_dicts_files proper_files_update)
qed

lemma proper_dicts_merge_scan:
  "proper_dicts s \<Longrightarrow> merge_scan as s added start = (r, s') \<Longrightarrow> proper_dicts s'"
proof (induction as arbitrary: s added start)
  case Nil
  then show ?case by simp
next
  case (Cons a as)
  let ?b = "heap s a"
  let ?s1 = "s\<lparr>chain_dict := AList.update (block_hash ?b) a (chain_dict s)\<rparr>"
  show ?case
  proof (cases "map_of (chain_dict s) (block_hash ?b) = None")
    case False
    with Cons.prems(2) have "merge_scan as s added start = (r, s')"
      by (simp add: Let_def)
    with Cons.prems(1) show ?thesis by (rule Cons.IH)
  next
    case True
    have p1: "proper_dicts ?s1"
      using Cons.prems(1) by (simp add: proper_dicts_files distinct_update)
    show ?thesis
    proof (cases "files_append (files ?s1) (file_hash ?b) (content_hash ?b) (block_hash ?b)")
      case (Inl e)
      with True Cons.prems(2) have "s' = ?s1" by (simp add: Let_def)
      with p1 show ?thesis by simp
    next
      case (Inr fs)
      let ?s2 = "?s1\<lparr>files := files_setitem fs (file_hash ?b) IndexAllKey (IntVal (index_all ?b))\<rparr>"
      from p1 have "proper_files (files ?s1)" by (simp add: proper_dicts_files)
      then have "proper_files fs" using Inr by (rule proper_files_append)
      with p1 have p2: "proper_dicts ?s2"
        by (simp add: proper_dicts_files proper_files_setitem)
      from True Inr Cons.prems(2) obtain added' start' where
        "merge_scan as ?s2 added' start' = (r, s')"
        by (simp add: Let_def)
      with p2 show ?thesis by (rule Cons.IH)
    qed
  qed
qed

lemma proper_dicts_merge_unwind:
  "proper_dicts s \<Longrightarrow> merge_unwind s cur start conflicted = (r, s') \<Longrightarrow> proper_dicts s'"
proof (induction s cur start conflicted rule: merge_unwind.induct)
  case (1 s cur start conflicted)
  let ?s1 = "s\<lparr>chain_dict := AList.delete (block_hash (heap s cur)) (chain_dict s)\<rparr>"
  obtain rr fs where rm: "files_remove (files ?s1) (file_hash (heap s cur))
      (content_hash (heap s cur)) (block_hash (heap s cur)) = (rr, fs)"
    by (cases "files_remove (files ?s1) (file_hash (heap s cur))
      (content_hash (heap s cur)) (block_hash (heap s cur))")
  from "1.prems"(1) have "proper_files (files ?s1)" by (simp add: proper_dicts_files)
  then have pf: "proper_files fs" using rm by (rule proper_files_remove)
  with "1.prems"(1) have p2: "proper_dicts (?s1\<lparr>files := fs\<rparr>)"
    by (simp add: proper_dicts_files distinct_delete)
  from "1.prems"(2) rm consider "s' = s" | "s' = ?s1\<lparr>files := fs\<rparr>"
    | c u where "block_hash (heap s cur) \<noteq> block_hash (heap s start)"
        "map_of (chain_dict s) (block_hash (heap s cur)) \<noteq> None"
        "rr = Inr u"
        "map_of (chain_dict ?s1) (previous_block_hash (heap s cur)) = Some c"
        "merge_unwind (?s1\<lparr>files := fs\<rparr>) c start (conflicted @ [cur]) = (r, s')"
    by (subst (asm) merge_unwind.simps)
      (auto simp: Let_def split: if_splits sum.splits option.splits)
  then show ?case
  proof cases
    case 1
    with "1.prems"(1) show ?thesis by simp
  next
    case 2
    with p2 show ?thesis by simp
  next
    case 3
    from "1.IH" [OF 3(1) _ refl rm [symmetric] 3(3) 3(4) p2 3(5)] 3(2)
    show ?thesis by simp
  qed
qed

lemma proper_dicts_merge_reinsert:
  "proper_dicts s \<Longrightarrow> merge_reinsert H as s added = (r, s') \<Longrightarrow> proper_dicts s'"
proof (induction as arbitrary: s added)
  case Nil
  then show ?case by simp
next
  case (Cons a as)
  obtain r1 s1 where step: "insert_block H a s = (r1, s1)"
    by (cases "insert_block H a s")
  with Cons.prems(1) have p1: "proper_dicts s1"
    by (rule proper_dicts_insert_block)
  show ?case
  proof (cases r1)
    case (Inl e)
    with Cons.prems(2) step p1 show ?thesis by simp
  next
    case (Inr u)
    with Cons.prems(2) step have "merge_reinsert H as s1 (added @ [a]) = (r, s')" by simp
    with p1 show ?thesis by (rule Cons.IH)
  qed
qed

lemma proper_dicts_merge_blocks:
  assumes "proper_dicts s" and "merge_blocks H new_blocks s = (r, s')"
  shows "proper_dicts s'"
proof -
  obtain r1 s1 where scan: "merge_scan (rev new_blocks) s [] None = (r1, s1)"
    by (cases "merge_scan (rev new_blocks) s [] None")
  with assms(1) have p1: "proper_dicts s1" by (rule proper_dicts_merge_scan)
  then have p1': "proper_dicts (s1\<lparr>latest_block := a\<rparr>)" for a
    by (simp add: proper_dicts_def)
  show ?thesis
  proof (cases r1)
    case (Inl e)
    with assms(2) scan p1 show ?thesis by (simp add: merge_blocks_def)
  next
    case (Inr p)
    obtain added_rev start where p: "p = (added_rev, start)" by (cases p)
    show ?thesis
    proof (cases start)
      case None
      with assms(2) scan Inr p p1 show ?thesis by (simp add: merge_blocks_def)
    next
      case (Some st)
      let ?s1' = "s1\<lparr>latest_block := last (rev added_rev)\<rparr>"
      obtain r2 s2 where unwind: "merge_unwind ?s1' (latest_block s1) st [] = (r2, s2)"
        by (cases "merge_unwind ?s1' (latest_block s1) st []")
      with p1' have p2: "proper_dicts s2" by (rule proper_dicts_merge_unwind)
      from assms(2) scan Inr p Some unwind
      consider "s' = s1" | "s' = ?s1'" | "s' = s2"
        | cs where "merge_reinsert H (rev cs) s2 (rev added_rev) = (r, s')"
        by (cases r2) (auto simp: merge_blocks_def Let_def split: if_splits)
      then show ?thesis
      proof cases
        case 1
        with p1 show ?thesis by simp
      next
        case 2
        with p1' show ?thesis by simp
      next
        case 3
        with p2 show ?thesis by simp
      next
        case 4
        with p2 show ?thesis by (rule proper_dicts_merge_reinsert)
      qed
    qed
  qed
qed

end
